theory Spec2Isabelle
  imports Complex_Main "HOL-Library.Sublist"
begin

section \<open>Strings and character classes\<close>

text \<open>
  A JavaScript string is a sequence of UTF-16 code units. The model uses \<^typ>\<open>string\<close>;
  a \<^typ>\<open>char\<close> stands for a code unit below 256. The classes below are those of the
  regular expressions of \<^verbatim>\<open>extractiveSummarize\<close> on that range: \<^verbatim>\<open>\w\<close> is
  \<^verbatim>\<open>[A-Za-z0-9_]\<close>, \<^verbatim>\<open>\s\<close> (and what \<^verbatim>\<open>trim\<close> strips) is TAB, LF, VT, FF,
  CR, SPACE and NBSP, and the line terminators that \<^verbatim>\<open>.\<close> does not match and before
  which \<^verbatim>\<open>$\<close> matches under the \<^verbatim>\<open>m\<close> flag are LF and CR.
\<close>

definition isWordChar :: "char \<Rightarrow> bool" where
  "isWordChar c =
     ((48 \<le> (of_char c :: nat) \<and> (of_char c :: nat) \<le> 57) \<or>
      (65 \<le> (of_char c :: nat) \<and> (of_char c :: nat) \<le> 90) \<or>
      (of_char c :: nat) = 95 \<or>
      (97 \<le> (of_char c :: nat) \<and> (of_char c :: nat) \<le> 122))"

definition isDigit :: "char \<Rightarrow> bool" where
  "isDigit c = (48 \<le> (of_char c :: nat) \<and> (of_char c :: nat) \<le> 57)"

definition isSpace :: "char \<Rightarrow> bool" where
  "isSpace c =
     ((9 \<le> (of_char c :: nat) \<and> (of_char c :: nat) \<le> 13) \<or>
      (of_char c :: nat) = 32 \<or> (of_char c :: nat) = 160)"

definition isLineTerminator :: "char \<Rightarrow> bool" where
  "isLineTerminator c = ((of_char c :: nat) = 10 \<or> (of_char c :: nat) = 13)"

definition isTerminator :: "char \<Rightarrow> bool" where
  "isTerminator c = (c = CHR ''.'' \<or> c = CHR ''!'' \<or> c = CHR ''?'')"

definition isQuote :: "char \<Rightarrow> bool" where
  "isQuote c = (c = CHR 0x22 \<or> c = CHR 0x27)"

text \<open>\<^verbatim>\<open>String.prototype.trim\<close>: leading and trailing white space removed.\<close>

definition trim :: "string \<Rightarrow> string" where
  "trim s = rev (dropWhile isSpace (rev (dropWhile isSpace s)))"

text \<open>
  \<^verbatim>\<open>toLowerCase\<close> on the letters A to Z. The function is only applied to sentences of the
  cleaned text, whose characters are word characters, spaces and \<^verbatim>\<open>.!?\<close>.
\<close>

definition lowerChar :: "char \<Rightarrow> char" where
  "lowerChar c =
     (if 65 \<le> (of_char c :: nat) \<and> (of_char c :: nat) \<le> 90
      then char_of ((of_char c :: nat) + 32) else c)"

definition toLowerCase :: "string \<Rightarrow> string" where
  "toLowerCase s = map lowerChar s"

text \<open>
  The classes on the bits of a character (the first bit is the lowest): the form in
  which they are evaluated on literals.
\<close>

lemma of_char_Char_nat:
  "(of_char (Char b0 b1 b2 b3 b4 b5 b6 b7) :: nat) =
     of_bool b0 + 2 * (of_bool b1 + 2 * (of_bool b2 + 2 * (of_bool b3 + 2 * (of_bool b4 +
       2 * (of_bool b5 + 2 * (of_bool b6 + 2 * of_bool b7))))))"
  by (simp add: of_char_Char)

lemma isWordChar_Char [code]:
  "isWordChar (Char b0 b1 b2 b3 b4 b5 b6 b7) =
     (\<not> b7 \<and>
      (if b6 then
         (if b5 then (if b4 then \<not> b3 \<or> (\<not> b2 \<and> \<not> (b1 \<and> b0)) else b0 \<or> b1 \<or> b2 \<or> b3)
          else (if b4 then \<not> b3 \<or> (\<not> b2 \<and> \<not> (b1 \<and> b0)) \<or> (b3 \<and> b2 \<and> b1 \<and> b0)
                else b0 \<or> b1 \<or> b2 \<or> b3))
       else b5 \<and> b4 \<and> (\<not> b3 \<or> (\<not> b2 \<and> \<not> b1))))"
  unfolding isWordChar_def of_char_Char_nat
  by (cases b0; cases b1; cases b2; cases b3; cases b4; cases b5; cases b6; cases b7) simp_all

lemma isDigit_Char [code]:
  "isDigit (Char b0 b1 b2 b3 b4 b5 b6 b7) =
     (\<not> b7 \<and> \<not> b6 \<and> b5 \<and> b4 \<and> (\<not> b3 \<or> (\<not> b2 \<and> \<not> b1)))"
  unfolding isDigit_def of_char_Char_nat
  by (cases b0; cases b1; cases b2; cases b3; cases b4; cases b5; cases b6; cases b7) simp_all

lemma isSpace_Char [code]:
  "isSpace (Char b0 b1 b2 b3 b4 b5 b6 b7) =
     (\<not> b6 \<and> \<not> b4 \<and>
      (if b3 then \<not> b7 \<and> \<not> b5 \<and> (if b2 then \<not> b1 else b1 \<or> b0)
       else b5 \<and> \<not> b2 \<and> \<not> b1 \<and> \<not> b0))"
  unfolding isSpace_def of_char_Char_nat
  by (cases b0; cases b1; cases b2; cases b3; cases b4; cases b5; cases b6; cases b7) simp_all

lemma isLineTerminator_Char [code]:
  "isLineTerminator (Char b0 b1 b2 b3 b4 b5 b6 b7) =
     (\<not> b7 \<and> \<not> b6 \<and> \<not> b5 \<and> \<not> b4 \<and> b3 \<and> (if b2 then \<not> b1 \<and> b0 else b1 \<and> \<not> b0))"
  unfolding isLineTerminator_def of_char_Char_nat
  by (cases b0; cases b1; cases b2; cases b3; cases b4; cases b5; cases b6; cases b7) simp_all

lemma lowerChar_Char [code]:
  "lowerChar (Char b0 b1 b2 b3 b4 b5 b6 b7) =
     (if \<not> b7 \<and> b6 \<and> \<not> b5 \<and>
         (if b4 then \<not> b3 \<or> (\<not> b2 \<and> \<not> (b1 \<and> b0)) else b0 \<or> b1 \<or> b2 \<or> b3)
      then Char b0 b1 b2 b3 b4 True b6 b7
      else Char b0 b1 b2 b3 b4 b5 b6 b7)"
  unfolding lowerChar_def of_char_Char_nat
  by (cases b0; cases b1; cases b2; cases b3; cases b4; cases b5; cases b6; cases b7)
     (simp_all add: char_of_def bit_0)

text \<open>\<^verbatim>\<open>s.startsWith(p)\<close> and \<^verbatim>\<open>s.includes(p)\<close>.\<close>

definition startsWith :: "string \<Rightarrow> string \<Rightarrow> bool" where
  "startsWith s p = prefix p s"

fun includesStr :: "string \<Rightarrow> string \<Rightarrow> bool" where
  "includesStr [] p = (p = [])"
| "includesStr (c # cs) p = (prefix p (c # cs) \<or> includesStr cs p)"

text \<open>\<^verbatim>\<open>xs.join(' ')\<close>.\<close>

fun joinSpace :: "string list \<Rightarrow> string" where
  "joinSpace [] = []"
| "joinSpace [x] = x"
| "joinSpace (x # y # ys) = x @ CHR '' '' # joinSpace (y # ys)"

section \<open>Cleaning the text\<close>

text \<open>
  \<^verbatim>\<open>.replace(/\[[^\]]*\]/g, '')\<close>: at an opening bracket with a closing bracket
  somewhere after it, everything up to the first closing bracket goes.
\<close>

function removeCitations :: "string \<Rightarrow> string" where
  "removeCitations [] = []"
| "removeCitations (c # cs) =
     (if c = CHR ''['' \<and> CHR '']'' \<in> set cs
      then removeCitations (tl (dropWhile (\<lambda>x. x \<noteq> CHR '']'') cs))
      else c # removeCitations cs)"
  by pat_completeness auto

termination
proof (relation "measure length")
  fix c :: char and cs :: string
  have "length (tl (dropWhile (\<lambda>x. x \<noteq> CHR '']'') cs)) \<le> length cs"
    using length_dropWhile_le [of "\<lambda>x. x \<noteq> CHR '']''" cs] by simp
  then show "(tl (dropWhile (\<lambda>x. x \<noteq> CHR '']'') cs), c # cs) \<in> measure length"
    by simp
qed simp_all

text \<open>
  \<^verbatim>\<open>.replace(/\^.*$/gm, '')\<close>: from a caret to the end of its line (the line
  terminator stays).
\<close>

function removeCaretLines :: "string \<Rightarrow> string" where
  "removeCaretLines [] = []"
| "removeCaretLines (c # cs) =
     (if c = CHR ''^''
      then removeCaretLines (dropWhile (\<lambda>x. \<not> isLineTerminator x) cs)
      else c # removeCaretLines cs)"
  by pat_completeness auto

termination
  by (relation "measure length") (auto simp: less_Suc_eq_le length_dropWhile_le)

text \<open>
  \<^verbatim>\<open>.replace(/https?:\/\/\S+/g, '')\<close>: \<open>urlRest\<close> is what follows the scheme when
  the text starts with one; a match needs one character that is not white space after
  it and takes all that follow.
\<close>

definition urlRest :: "string \<Rightarrow> string option" where
  "urlRest s =
     (if prefix ''https://'' s then Some (drop 8 s)
      else if prefix ''http://'' s then Some (drop 7 s)
      else None)"

lemma urlRest_length: "urlRest (c # cs) = Some r \<Longrightarrow> length r \<le> length cs"
  by (auto simp: urlRest_def split: if_splits)

function removeUrls :: "string \<Rightarrow> string" where
  "removeUrls [] = []"
| "removeUrls (c # cs) =
     (case urlRest (c # cs) of
        Some (r # rs) \<Rightarrow>
          if \<not> isSpace r then removeUrls (dropWhile (\<lambda>x. \<not> isSpace x) rs)
          else c # removeUrls cs
      | _ \<Rightarrow> c # removeUrls cs)"
  by pat_completeness auto

termination
proof (relation "measure length")
  fix c r :: char and cs rs x2 :: string
  assume "urlRest (c # cs) = Some x2" and "x2 = r # rs"
  then have "length (r # rs) \<le> length cs"
    by (auto dest: urlRest_length)
  moreover have "length (dropWhile (\<lambda>x. \<not> isSpace x) rs) \<le> length rs"
    by (rule length_dropWhile_le)
  ultimately show "(dropWhile (\<lambda>x. \<not> isSpace x) rs, c # cs) \<in> measure length"
    by simp
qed simp_all

text \<open>
  \<^verbatim>\<open>.replace(/\(.*?\)/g, '')\<close>: at an opening parenthesis, up to the first closing
  one, when no line terminator stands between them.
\<close>

function removeParens :: "string \<Rightarrow> string" where
  "removeParens [] = []"
| "removeParens (c # cs) =
     (if c = CHR ''(''
      then (case dropWhile (\<lambda>x. x \<noteq> CHR '')'' \<and> \<not> isLineTerminator x) cs of
              r # rs \<Rightarrow> if r = CHR '')'' then removeParens rs else c # removeParens cs
            | [] \<Rightarrow> c # removeParens cs)
      else c # removeParens cs)"
  by pat_completeness auto

termination
proof (relation "measure length")
  fix c r :: char and cs rs :: string
  assume "dropWhile (\<lambda>x. x \<noteq> CHR '')'' \<and> \<not> isLineTerminator x) cs = r # rs"
  then have "length (r # rs) \<le> length cs"
    using length_dropWhile_le [of "\<lambda>x. x \<noteq> CHR '')'' \<and> \<not> isLineTerminator x" cs] by simp
  then show "(rs, c # cs) \<in> measure length"
    by simp
qed simp_all

text \<open>\<^verbatim>\<open>.replace(/\s+/g, ' ')\<close>: every run of white space becomes one space.\<close>

function collapseWhitespace :: "string \<Rightarrow> string" where
  "collapseWhitespace [] = []"
| "collapseWhitespace (c # cs) =
     (if isSpace c then CHR '' '' # collapseWhitespace (dropWhile isSpace cs)
      else c # collapseWhitespace cs)"
  by pat_completeness auto

termination
  by (relation "measure length") (auto simp: less_Suc_eq_le length_dropWhile_le)

text \<open>\<^verbatim>\<open>.replace(/[^\w\s.!?]/g, '')\<close>.\<close>

definition stripSpecial :: "string \<Rightarrow> string" where
  "stripSpecial s = filter (\<lambda>c. isWordChar c \<or> isSpace c \<or> isTerminator c) s"

text \<open>The constant \<^verbatim>\<open>cleaned\<close> of \<^verbatim>\<open>extractiveSummarize\<close>, as a function of the text.\<close>

definition cleaned :: "string \<Rightarrow> string" where
  "cleaned text =
     trim (stripSpecial (collapseWhitespace (removeParens (removeUrls
       (removeCaretLines (removeCitations text))))))"

section \<open>Sentences\<close>

text \<open>
  \<^verbatim>\<open>cleaned.match(/[^.!?]+(?:[.!?]+["']?|$)/g) || []\<close>: a match starts at a
  character that is no terminator, takes the run of such characters, then the run of
  terminators after it and one quote after these, or ends with the text.
\<close>

function matchSentences :: "string \<Rightarrow> string list" where
  "matchSentences [] = []"
| "matchSentences (c # cs) =
     (if isTerminator c then matchSentences cs
      else
        let body = c # takeWhile (\<lambda>x. \<not> isTerminator x) cs;
            r1 = dropWhile (\<lambda>x. \<not> isTerminator x) cs;
            terms = takeWhile isTerminator r1;
            r2 = dropWhile isTerminator r1;
            quote = (if terms \<noteq> [] \<and> r2 \<noteq> [] \<and> isQuote (hd r2) then [hd r2] else [])
        in (body @ terms @ quote) # matchSentences (drop (length quote) r2))"
  by pat_completeness auto

termination
proof (relation "measure length")
  fix c :: char and cs body r1 terms r2 quote :: string
  assume "r1 = dropWhile (\<lambda>x. \<not> isTerminator x) cs" and "r2 = dropWhile isTerminator r1"
  then have "length r2 \<le> length cs"
    using length_dropWhile_le [of "\<lambda>x. \<not> isTerminator x" cs]
      length_dropWhile_le [of isTerminator r1] by simp
  then show "(drop (length quote) r2, c # cs) \<in> measure length"
    by simp
qed simp_all

text \<open>\<^verbatim>\<open>s.split(/\s+/)\<close>: the pieces between the runs of white space.\<close>

function splitWhitespace :: "string \<Rightarrow> string list" where
  "splitWhitespace [] = [[]]"
| "splitWhitespace (c # cs) =
     (if isSpace c then [] # splitWhitespace (dropWhile isSpace cs)
      else (case splitWhitespace cs of
              p # ps \<Rightarrow> (c # p) # ps
            | [] \<Rightarrow> [[c]]))"
  by pat_completeness auto

termination
  by (relation "measure length") (auto simp: less_Suc_eq_le length_dropWhile_le)

text \<open>\<^verbatim>\<open>/^\s*\d+\.\s*/.test(s)\<close>: white space, digits, a dot.\<close>

definition numberedStart :: "string \<Rightarrow> bool" where
  "numberedStart s =
     (let r = dropWhile isSpace s in
      takeWhile isDigit r \<noteq> [] \<and>
      (case dropWhile isDigit r of [] \<Rightarrow> False | d # _ \<Rightarrow> d = CHR ''.''))"

text \<open>The predicate of the \<^verbatim>\<open>filter\<close> call.\<close>

definition keepSentence :: "string \<Rightarrow> bool" where
  "keepSentence s =
     (if length (splitWhitespace s) < 4 \<or> length s < 20 then False
      else if includesStr s ''import '' \<or> includesStr s ''def '' \<or> includesStr s ''= '' \<or>
              includesStr s ''{'' \<or> includesStr s ''}'' then False
      else if startsWith s ''^'' \<or> startsWith s ''http'' \<or> numberedStart s then False
      else if includesStr (toLowerCase s) ''click here'' \<or>
              includesStr (toLowerCase s) ''next page'' then False
      else True)"

definition sentences :: "string \<Rightarrow> string list" where
  "sentences text = matchSentences (cleaned text)"

definition validSentences :: "string \<Rightarrow> string list" where
  "validSentences text = filter keepSentence (map trim (sentences text))"

section \<open>Words and stop words\<close>

text \<open>\<^verbatim>\<open>x.match(/\b\w+\b/g) || []\<close>: the maximal runs of word characters.\<close>

function matchWords :: "string \<Rightarrow> string list" where
  "matchWords [] = []"
| "matchWords (c # cs) =
     (if isWordChar c
      then (c # takeWhile isWordChar cs) # matchWords (dropWhile isWordChar cs)
      else matchWords cs)"
  by pat_completeness auto

termination
  by (relation "measure length") (auto simp: less_Suc_eq_le length_dropWhile_le)

text \<open>\<^verbatim>\<open>sentence.toLowerCase().match(/\b\w+\b/g) || []\<close>.\<close>

definition wordsOf :: "string \<Rightarrow> string list" where
  "wordsOf sentence = matchWords (toLowerCase sentence)"

definition stopWords :: "string list" where
  "stopWords =
     [''a'', ''an'', ''the'', ''and'', ''or'', ''but'', ''is'', ''are'', ''was'', ''were'',
      ''to'', ''of'', ''in'', ''for'', ''with'', ''on'', ''at'', ''by'', ''this'', ''that'',
      ''there'', ''here'', ''what'', ''where'', ''when'', ''how'', ''all'', ''any'',
      ''both'', ''each'', ''few'', ''more'', ''most'', ''other'', ''some'', ''such'',
      ''no'', ''nor'', ''not'', ''only'', ''own'', ''same'', ''so'', ''than'', ''too'',
      ''very'', ''can'', ''will'', ''just'', ''should'', ''now'', ''click'', ''page'']"

text \<open>\<^verbatim>\<open>stopWords.has(word)\<close>.\<close>

definition isStopWord :: "string \<Rightarrow> bool" where
  "isStopWord w = (w \<in> set stopWords)"

section \<open>Numbers and frequency tables\<close>

text \<open>
  The values that the tables and the scores hold. \<open>Num\<close> is a number, modelled as a
  real: the rounding of IEEE doubles is left out, so two scores that are equal or
  closer than the rounding error may compare differently in the program. \<open>NaN\<close> is
  the number NaN. \<open>NonNumeric\<close>
  stands for a value that is truthy, makes \<^verbatim>\<open>+\<close> a string concatenation and
  converts to the number NaN: a member inherited from \<^verbatim>\<open>Object.prototype\<close> (the
  function \<^verbatim>\<open>Object\<close>, the prototype object itself) and every string built from
  one by \<^verbatim>\<open>+\<close>, which contains its source text.
\<close>

datatype jsval = Undefined | Num real | NaN | NonNumeric

text \<open>\<^verbatim>\<open>v || 0\<close>.\<close>

definition orZero :: "jsval \<Rightarrow> jsval" where
  "orZero v = (case v of Undefined \<Rightarrow> Num 0 | NaN \<Rightarrow> Num 0 | Num r \<Rightarrow> Num r
               | NonNumeric \<Rightarrow> NonNumeric)"

text \<open>\<^verbatim>\<open>n || 1\<close> for a length \<open>n\<close>.\<close>

definition orOne :: "nat \<Rightarrow> real" where
  "orOne n = (if n = 0 then 1 else real n)"

text \<open>\<^verbatim>\<open>a + b\<close>: addition of numbers, concatenation when a side is no number.\<close>

definition jsPlus :: "jsval \<Rightarrow> jsval \<Rightarrow> jsval" where
  "jsPlus a b =
     (case (a, b) of
        (Num x, Num y) \<Rightarrow> Num (x + y)
      | (NonNumeric, _) \<Rightarrow> NonNumeric
      | (_, NonNumeric) \<Rightarrow> NonNumeric
      | _ \<Rightarrow> NaN)"

text \<open>\<^verbatim>\<open>a - b\<close>, \<^verbatim>\<open>a * r\<close> and \<^verbatim>\<open>a / d\<close> convert to numbers first; \<open>d\<close> is never 0 here.\<close>

definition jsMinus :: "jsval \<Rightarrow> jsval \<Rightarrow> jsval" where
  "jsMinus a b = (case (a, b) of (Num x, Num y) \<Rightarrow> Num (x - y) | _ \<Rightarrow> NaN)"

definition jsTimes :: "jsval \<Rightarrow> real \<Rightarrow> jsval" where
  "jsTimes a r = (case a of Num x \<Rightarrow> Num (x * r) | _ \<Rightarrow> NaN)"

definition jsDividedBy :: "jsval \<Rightarrow> real \<Rightarrow> jsval" where
  "jsDividedBy a d = (case a of Num x \<Rightarrow> Num (x / d) | _ \<Rightarrow> NaN)"

text \<open>
  \<^verbatim>\<open>const wordFreq = {}\<close> is an ordinary object: a map of its own properties, with
  \<^verbatim>\<open>Object.prototype\<close> behind it. Reading a key that is no own property finds the
  member of the prototype of that name, if there is one. Writing a number or a string
  to \<^verbatim>\<open>__proto__\<close> runs the setter of the prototype, which ignores it; writing to
  any other key makes an own property.
\<close>

type_synonym jsobject = "string \<rightharpoonup> jsval"

definition objectPrototypeKeys :: "string list" where
  "objectPrototypeKeys =
     [''constructor'', ''__defineGetter__'', ''__defineSetter__'', ''hasOwnProperty'',
      ''__lookupGetter__'', ''__lookupSetter__'', ''isPrototypeOf'',
      ''propertyIsEnumerable'', ''toString'', ''valueOf'', ''__proto__'',
      ''toLocaleString'']"

definition getProp :: "jsobject \<Rightarrow> string \<Rightarrow> jsval" where
  "getProp obj k =
     (case obj k of
        Some v \<Rightarrow> v
      | None \<Rightarrow> if k \<in> set objectPrototypeKeys then NonNumeric else Undefined)"

definition setProp :: "jsobject \<Rightarrow> string \<Rightarrow> jsval \<Rightarrow> jsobject" where
  "setProp obj k v = (if k = ''__proto__'' then obj else obj(k \<mapsto> v))"

text \<open>\<^verbatim>\<open>obj[k] = (obj[k] || 0) + 1\<close>.\<close>

definition increment :: "jsobject \<Rightarrow> string \<Rightarrow> jsobject" where
  "increment obj k = setProp obj k (jsPlus (orZero (getProp obj k)) (Num 1))"

text \<open>The loop over the words of one sentence, and the loop over its adjacent pairs.\<close>

definition countWords :: "jsobject \<Rightarrow> string list \<Rightarrow> jsobject" where
  "countWords tbl ws =
     foldl (\<lambda>tbl word. if \<not> isStopWord word \<and> length word > 2 then increment tbl word else tbl)
       tbl ws"

fun countPhrases :: "jsobject \<Rightarrow> string list \<Rightarrow> jsobject" where
  "countPhrases tbl (a # b # ws) =
     countPhrases
       (if \<not> isStopWord a \<and> \<not> isStopWord b then increment tbl (a @ '' '' @ b) else tbl)
       (b # ws)"
| "countPhrases tbl ws = tbl"

text \<open>The two tables after \<^verbatim>\<open>validSentences.forEach\<close>.\<close>

definition wordFreq :: "string list \<Rightarrow> jsobject" where
  "wordFreq vs = foldl (\<lambda>tbl sentence. countWords tbl (wordsOf sentence)) Map.empty vs"

definition phraseFreq :: "string list \<Rightarrow> jsobject" where
  "phraseFreq vs = foldl (\<lambda>tbl sentence. countPhrases tbl (wordsOf sentence)) Map.empty vs"

section \<open>Scores\<close>

definition frequencyScore :: "jsobject \<Rightarrow> string list \<Rightarrow> jsval" where
  "frequencyScore tbl ws =
     jsDividedBy
       (foldl (\<lambda>score word. jsPlus score (orZero (getProp tbl word))) (Num 0)
          (filter (\<lambda>word. \<not> isStopWord word) ws))
       (orOne (length (filter (\<lambda>word. \<not> isStopWord word) ws)))"

fun phraseSum :: "jsobject \<Rightarrow> jsval \<Rightarrow> string list \<Rightarrow> jsval" where
  "phraseSum tbl score (a # b # ws) =
     phraseSum tbl (jsPlus score (orZero (getProp tbl (a @ '' '' @ b)))) (b # ws)"
| "phraseSum tbl score ws = score"

definition phraseScore :: "jsobject \<Rightarrow> string list \<Rightarrow> jsval" where
  "phraseScore tbl ws = jsDividedBy (phraseSum tbl (Num 0) ws) (orOne (length ws))"

definition positionScore :: "nat \<Rightarrow> nat \<Rightarrow> real" where
  "positionScore index totalCount =
     (if real index < real totalCount * 0.2 then 1 - real index / (real totalCount * 0.2)
      else if real index > real totalCount * 0.8
           then (real index - real totalCount * 0.8) / (real totalCount * 0.2)
           else 0.2)"

definition lengthScore :: "string list \<Rightarrow> real" where
  "lengthScore ws = exp (- (\<bar>real (length ws) - 20\<bar> / 20))"

text \<open>
  \<^verbatim>\<open>uniqueWords / words.length\<close> has no guard: with no word it is 0 / 0, which is
  NaN.
\<close>

definition uniqueWords :: "string list \<Rightarrow> nat" where
  "uniqueWords ws = length (remdups (filter (\<lambda>word. \<not> isStopWord word) ws))"

definition diversityScore :: "string list \<Rightarrow> jsval" where
  "diversityScore ws =
     (if length ws = 0 then NaN else Num (real (uniqueWords ws) / real (length ws)))"

definition finalScore :: "jsobject \<Rightarrow> jsobject \<Rightarrow> string \<Rightarrow> nat \<Rightarrow> nat \<Rightarrow> jsval" where
  "finalScore wordTbl phraseTbl sentence index totalCount =
     (let ws = wordsOf sentence in
      jsPlus
        (jsPlus
          (jsPlus
            (jsPlus (jsTimes (frequencyScore wordTbl ws) 0.3)
               (jsTimes (phraseScore phraseTbl ws) 0.2))
            (Num (positionScore index totalCount * 0.2)))
          (Num (lengthScore ws * 0.15)))
        (jsTimes (diversityScore ws) 0.15))"

record scored =
  sentence :: string
  originalIndex :: nat
  score :: jsval

definition sentenceScores :: "string list \<Rightarrow> scored list" where
  "sentenceScores vs =
     map (\<lambda>(index, s).
            \<lparr>sentence = trim s, originalIndex = index,
             score = finalScore (wordFreq vs) (phraseFreq vs) s index (length vs)\<rparr>)
       (enumerate 0 vs)"

section \<open>Selection\<close>

text \<open>
  \<^verbatim>\<open>Array.prototype.sort\<close> with a comparison function is stable; \<open>a\<close> goes after
  \<open>b\<close> when the function returns a positive number for \<open>(a, b)\<close>, and a result NaN
  counts as 0. The model is the stable insertion sort. With a score NaN the comparison
  function is not consistent and the order is left to the implementation, which may
  return another permutation than this one. The general theorems on the summary
  therefore use of the sort by score only that it permutes its input
  (\<open>selection_of_any_ranking\<close>), and the order itself is evaluated only on the worked
  example, whose scores are numbers more than 0.03 apart.
\<close>

definition positive :: "jsval \<Rightarrow> bool" where
  "positive v = (case v of Num r \<Rightarrow> 0 < r | _ \<Rightarrow> False)"

fun insertSorted :: "('a \<Rightarrow> 'a \<Rightarrow> jsval) \<Rightarrow> 'a \<Rightarrow> 'a list \<Rightarrow> 'a list" where
  "insertSorted cmp x [] = [x]"
| "insertSorted cmp x (y # ys) =
     (if positive (cmp x y) then y # insertSorted cmp x ys else x # y # ys)"

definition sortBy :: "('a \<Rightarrow> 'a \<Rightarrow> jsval) \<Rightarrow> 'a list \<Rightarrow> 'a list" where
  "sortBy cmp xs = foldr (insertSorted cmp) xs []"

text \<open>\<^verbatim>\<open>(a, b) => b.score - a.score\<close> and \<^verbatim>\<open>(a, b) => a.originalIndex - b.originalIndex\<close>.\<close>

definition byScoreDescending :: "scored \<Rightarrow> scored \<Rightarrow> jsval" where
  "byScoreDescending a b = jsMinus (score b) (score a)"

definition byOriginalIndex :: "scored \<Rightarrow> scored \<Rightarrow> jsval" where
  "byOriginalIndex a b = Num (real (originalIndex a) - real (originalIndex b))"

text \<open>\<^verbatim>\<open>xs.slice(0, n)\<close>: a negative \<open>n\<close> counts from the end.\<close>

definition sliceTo :: "int \<Rightarrow> 'a list \<Rightarrow> 'a list" where
  "sliceTo n xs = (if n < 0 then take (nat (int (length xs) + n)) xs else take (nat n) xs)"

definition topItems :: "string list \<Rightarrow> int \<Rightarrow> scored list" where
  "topItems vs numSentences =
     sortBy byOriginalIndex (sliceTo numSentences (sortBy byScoreDescending (sentenceScores vs)))"

definition topSentences :: "string list \<Rightarrow> int \<Rightarrow> string list" where
  "topSentences vs numSentences = map sentence (topItems vs numSentences)"

section \<open>The summarizer\<close>

definition extractiveSummarize :: "string \<Rightarrow> int \<Rightarrow> string" where
  "extractiveSummarize text numSentences =
     (if int (length (validSentences text)) \<le> numSentences
      then joinSpace (validSentences text)
      else joinSpace (topSentences (validSentences text) numSentences))"

text \<open>
  The parameter \<^verbatim>\<open>numSentences = 5\<close>: a call with the argument left out
  (\<open>None\<close>) takes the default, a call with a count takes that count, whatever it is.
\<close>

definition extractiveSummarizeCall :: "string \<Rightarrow> int option \<Rightarrow> string" where
  "extractiveSummarizeCall text arg =
     extractiveSummarize text (case arg of None \<Rightarrow> 5 | Some numSentences \<Rightarrow> numSentences)"

text \<open>A call without the second argument takes the default of the parameter.\<close>

definition extractiveSummarizeDefault :: "string \<Rightarrow> string" where
  "extractiveSummarizeDefault text = extractiveSummarize text 5"

text \<open>
  The count that the click handler passes to \<^verbatim>\<open>extractiveSummarize\<close>:
  \<^verbatim>\<open>parseInt(value) || 5\<close>. The result of \<^verbatim>\<open>parseInt\<close> is taken as given, with
  \<open>None\<close> for NaN.
\<close>

definition requestedCount :: "int option \<Rightarrow> int" where
  "requestedCount parsed = (case parsed of None \<Rightarrow> 5 | Some n \<Rightarrow> if n = 0 then 5 else n)"

text \<open>The sentences that the returned string joins, and their places among the valid ones.\<close>

definition summarySentences :: "string \<Rightarrow> int \<Rightarrow> string list" where
  "summarySentences text numSentences =
     (if int (length (validSentences text)) \<le> numSentences
      then validSentences text
      else topSentences (validSentences text) numSentences)"

definition summaryIndices :: "string \<Rightarrow> int \<Rightarrow> nat list" where
  "summaryIndices text numSentences =
     (if int (length (validSentences text)) \<le> numSentences
      then [0..<length (validSentences text)]
      else map originalIndex (topItems (validSentences text) numSentences))"

text \<open>
  The ranking: the original indices of the scored sentences in the order in which the
  sort by score returns them, best first.
\<close>

definition ranking :: "string list \<Rightarrow> nat list" where
  "ranking vs = map originalIndex (sortBy byScoreDescending (sentenceScores vs))"

section \<open>Notions of the specification and of the proofs\<close>

text \<open>
  The occurrences that the specification counts: \<open>countedWords\<close> are the tokens of the
  valid sentences that are no stop words and longer than 2, \<open>countedPhrases\<close> the keys
  (two words joined by a space) of their adjacent pairs with no stop word in them.
\<close>

definition countedWords :: "string list \<Rightarrow> string list" where
  "countedWords vs =
     concat (map (\<lambda>s. filter (\<lambda>w. \<not> isStopWord w \<and> 2 < length w) (wordsOf s)) vs)"

text \<open>The adjacent pairs of a list of words, and the key of a pair in the phrase table.\<close>

fun adjacentPhrases :: "string list \<Rightarrow> (string \<times> string) list" where
  "adjacentPhrases (a # b # ws) = (a, b) # adjacentPhrases (b # ws)"
| "adjacentPhrases ws = []"

definition phraseKey :: "string \<times> string \<Rightarrow> string" where
  "phraseKey p = fst p @ '' '' @ snd p"

definition countedPairs :: "string list \<Rightarrow> string list" where
  "countedPairs ws =
     map phraseKey
       (filter (\<lambda>p. \<not> isStopWord (fst p) \<and> \<not> isStopWord (snd p)) (adjacentPhrases ws))"

definition countedPhrases :: "string list \<Rightarrow> string list" where
  "countedPhrases vs = concat (map (\<lambda>s. countedPairs (wordsOf s)) vs)"

text \<open>
  The scores as the specification words them: the two tables as counts of occurrences,
  the five sub-scores, and the weighted sum. They are compared with \<open>finalScore\<close>
  below.
\<close>

definition specWordFreq :: "string list \<Rightarrow> string \<Rightarrow> nat" where
  "specWordFreq vs w = count_list (countedWords vs) w"

definition specPhraseFreq :: "string list \<Rightarrow> string \<Rightarrow> nat" where
  "specPhraseFreq vs k = count_list (countedPhrases vs) k"

definition specFrequency :: "string list \<Rightarrow> string list \<Rightarrow> real" where
  "specFrequency vs ws =
     (let ns = filter (\<lambda>w. \<not> isStopWord w) ws in
      if ns = [] then 0 else real (sum_list (map (specWordFreq vs) ns)) / real (length ns))"

definition specPhrase :: "string list \<Rightarrow> string list \<Rightarrow> real" where
  "specPhrase vs ws =
     real (sum_list (map (\<lambda>p. specPhraseFreq vs (phraseKey p)) (adjacentPhrases ws)))
       / real (length ws)"

definition specPosition :: "nat \<Rightarrow> nat \<Rightarrow> real" where
  "specPosition index totalCount =
     (if real index / real totalCount < 0.2 then 1 - real index / (real totalCount * 0.2)
      else if real index / real totalCount > 0.8
           then (real index - real totalCount * 0.8) / (real totalCount * 0.2)
           else 0.2)"

definition specLength :: "string list \<Rightarrow> real" where
  "specLength ws = exp (- \<bar>real (length ws) - 20\<bar> / 20)"

definition specDiversity :: "string list \<Rightarrow> real" where
  "specDiversity ws = real (card (set (filter (\<lambda>w. \<not> isStopWord w) ws))) / real (length ws)"

definition specScore :: "string list \<Rightarrow> string \<Rightarrow> nat \<Rightarrow> real" where
  "specScore vs s index =
     0.30 * specFrequency vs (wordsOf s) + 0.20 * specPhrase vs (wordsOf s) +
     0.20 * specPosition index (length vs) + 0.15 * specLength (wordsOf s) +
     0.15 * specDiversity (wordsOf s)"

text \<open>
  A table holds the counts \<open>f\<close> when reading any key that is no member name of
  \<^verbatim>\<open>Object.prototype\<close> gives the count of the key, or \<^verbatim>\<open>undefined\<close> for a count of 0.
\<close>

definition holdsCounts :: "jsobject \<Rightarrow> (string \<Rightarrow> nat) \<Rightarrow> bool" where
  "holdsCounts tbl f =
     (\<forall>k. k \<notin> set objectPrototypeKeys \<longrightarrow>
        getProp tbl k = (if f k = 0 then Undefined else Num (real (f k))))"

text \<open>
  Under a key that is a member name of \<^verbatim>\<open>Object.prototype\<close> a table never holds a
  number: reading it gives the inherited member, or the string made from it.
\<close>

definition holdsMembers :: "jsobject \<Rightarrow> bool" where
  "holdsMembers tbl = (\<forall>k \<in> set objectPrototypeKeys. getProp tbl k = NonNumeric)"

text \<open>The order of two scores that are numbers: the first is not below the second.\<close>

definition notBelow :: "jsval \<Rightarrow> jsval \<Rightarrow> bool" where
  "notBelow a b = (case (a, b) of (Num x, Num y) \<Rightarrow> y \<le> x | _ \<Rightarrow> False)"

text \<open>
  The alphabet of a cleaned text (word characters, the space and the terminators), a
  text without white space at its ends, and a text with two white space characters in
  a row.
\<close>

definition cleanAlphabet :: "string \<Rightarrow> bool" where
  "cleanAlphabet s = (\<forall>c \<in> set s. isWordChar c \<or> c = CHR '' '' \<or> isTerminator c)"

fun adjacentSpaces :: "string \<Rightarrow> bool" where
  "adjacentSpaces (a # b # cs) = ((isSpace a \<and> isSpace b) \<or> adjacentSpaces (b # cs))"
| "adjacentSpaces cs = False"

definition isTrimmed :: "string \<Rightarrow> bool" where
  "isTrimmed s = (s = [] \<or> (\<not> isSpace (hd s) \<and> \<not> isSpace (last s)))"

text \<open>The letters A to Z.\<close>

definition isUpperCase :: "char \<Rightarrow> bool" where
  "isUpperCase c = (65 \<le> (of_char c :: nat) \<and> (of_char c :: nat) \<le> 90)"

section \<open>Example texts\<close>

text \<open>The text of the end-to-end scenario and its three sentences.\<close>

definition catText :: string where
  "catText = ''The cat sat on the mat. [1] A much longer sentence about cats and their habits in urban environments follows here. http://example.com Another long descriptive sentence about feline behavior and city life continues the narrative.''"

definition catSentence :: string where
  "catSentence = ''The cat sat on the mat.''"

definition habitsSentence :: string where
  "habitsSentence = ''A much longer sentence about cats and their habits in urban environments follows here.''"

definition felineSentence :: string where
  "felineSentence = ''Another long descriptive sentence about feline behavior and city life continues the narrative.''"

text \<open>The valid sentences of the worked example and their scores.\<close>

definition catValid :: "string list" where
  "catValid = [catSentence, habitsSentence, felineSentence]"

definition catScore :: real where
  "catScore = 73 / 120 + exp (- (7 / 10)) * 3 / 20"

definition habitsScore :: real where
  "habitsScore = 87 / 140 + exp (- (3 / 10)) * 3 / 20"

definition felineScore :: real where
  "felineScore = 9437 / 14300 + exp (- (7 / 20)) * 3 / 20"

text \<open>A text with the word \<^verbatim>\<open>constructor\<close>, a member name of \<^verbatim>\<open>Object.prototype\<close>.\<close>

definition constructorText :: string where
  "constructorText = ''The constructor builds the object instance correctly. Another long sentence follows the first one here.''"

definition constructorSentence :: string where
  "constructorSentence = ''The constructor builds the object instance correctly.''"

definition followsSentence :: string where
  "followsSentence = ''Another long sentence follows the first one here.''"

section \<open>A worked example\<close>

lemma cleaned_catText:
  "cleaned catText = ''The cat sat on the mat. A much longer sentence about cats and their habits in urban environments follows here. Another long descriptive sentence about feline behavior and city life continues the narrative.''"
  unfolding catText_def by code_simp

lemma validSentences_catText:
  "validSentences catText = [catSentence, habitsSentence, felineSentence]"
  unfolding catText_def catSentence_def habitsSentence_def felineSentence_def by code_simp

section \<open>Trimming, sorting and slicing\<close>

lemma trim_idem: "trim (trim s) = trim s"
proof -
  define t where "t = dropWhile isSpace s"
  define u where "u = dropWhile isSpace (rev t)"
  have u_hd: "u = [] \<or> \<not> isSpace (hd u)"
    unfolding u_def by (metis hd_dropWhile)
  have t_hd: "t = [] \<or> \<not> isSpace (hd t)"
    unfolding t_def by (metis hd_dropWhile)
  have u_suffix: "\<exists>ws. rev t = ws @ u"
    unfolding u_def by (metis takeWhile_dropWhile_id)
  have ru: "rev u = [] \<or> \<not> isSpace (hd (rev u))"
  proof (cases "u = []")
    case True
    then show ?thesis by simp
  next
    case False
    from u_suffix obtain ws where ws: "rev t = ws @ u" by blast
    then have "t = rev u @ rev ws" by (metis rev_append rev_rev_ident)
    with False t_hd show ?thesis by (cases "rev u") auto
  qed
  have 1: "dropWhile isSpace (rev u) = rev u"
    using ru by (cases "rev u") auto
  have 2: "dropWhile isSpace u = u"
    using u_hd by (cases u) auto
  show ?thesis
    unfolding trim_def t_def [symmetric] u_def [symmetric]
    by (simp add: 1 2)
qed

lemma set_trim: "set (trim s) \<subseteq> set s"
  unfolding trim_def by (auto dest!: set_dropWhileD)

lemma set_insertSorted [simp]: "set (insertSorted cmp x ys) = insert x (set ys)"
  by (induction ys) auto

lemma length_insertSorted [simp]: "length (insertSorted cmp x ys) = Suc (length ys)"
  by (induction ys) auto

lemma set_sortBy [simp]: "set (sortBy cmp xs) = set xs"
  unfolding sortBy_def by (induction xs) auto

lemma length_sortBy [simp]: "length (sortBy cmp xs) = length xs"
  unfolding sortBy_def by (induction xs) auto

lemma distinct_map_insertSorted:
  "distinct (map f (insertSorted cmp x ys)) = (f x \<notin> f ` set ys \<and> distinct (map f ys))"
  by (induction ys) auto

lemma distinct_map_sortBy: "distinct (map f (sortBy cmp xs)) = distinct (map f xs)"
  unfolding sortBy_def
  by (induction xs) (auto simp: distinct_map_insertSorted simp flip: sortBy_def)

lemma sorted_insertSorted_index:
  "sorted (map originalIndex ys) \<Longrightarrow>
     sorted (map originalIndex (insertSorted byOriginalIndex x ys))"
  by (induction ys) (auto simp: byOriginalIndex_def positive_def)

lemma sorted_sortBy_index: "sorted (map originalIndex (sortBy byOriginalIndex xs))"
  unfolding sortBy_def
  by (induction xs) (auto intro: sorted_insertSorted_index)

lemma length_sliceTo_nonneg: "0 \<le> n \<Longrightarrow> length (sliceTo n xs) = min (nat n) (length xs)"
  by (simp add: sliceTo_def)

lemma length_sliceTo_neg: "n < 0 \<Longrightarrow> length (sliceTo n xs) = nat (int (length xs) + n)"
  by (auto simp add: sliceTo_def)

lemma set_sliceTo: "set (sliceTo n xs) \<subseteq> set xs"
  by (auto simp: sliceTo_def dest: in_set_takeD)

lemma distinct_map_sliceTo: "distinct (map f xs) \<Longrightarrow> distinct (map f (sliceTo n xs))"
  by (simp add: sliceTo_def take_map [symmetric] del: take_map)

lemma map_index_sentenceScores [simp]:
  "map originalIndex (sentenceScores vs) = [0..<length vs]"
  by (simp add: sentenceScores_def enumerate_eq_zip comp_def case_prod_unfold)

lemma length_sentenceScores [simp]: "length (sentenceScores vs) = length vs"
  by (simp add: sentenceScores_def)

lemma sentenceScores_item:
  "x \<in> set (sentenceScores vs) \<Longrightarrow>
     originalIndex x < length vs \<and> sentence x = trim (vs ! originalIndex x)"
  by (auto simp: sentenceScores_def in_set_enumerate_eq)

lemma validSentences_trimmed: "s \<in> set (validSentences text) \<Longrightarrow> trim s = s"
  by (auto simp: validSentences_def trim_idem)

lemma extractiveSummarize_joins:
  "extractiveSummarize text numSentences = joinSpace (summarySentences text numSentences)"
  by (simp add: extractiveSummarize_def summarySentences_def)

section \<open>The short circuit\<close>

text \<open>
  C4. When the valid sentences are no more than the requested count, the summary is all
  of them, in their order, joined by single spaces. It is a function of the valid
  sentences alone: neither table and no score enters it.
\<close>

theorem short_circuit_returns_all:
  assumes "int (length (validSentences text)) \<le> numSentences"
  shows "extractiveSummarize text numSentences = joinSpace (validSentences text) \<and>
         summarySentences text numSentences = validSentences text"
  using assms by (simp add: extractiveSummarize_def summarySentences_def)

text \<open>Three valid sentences and a count of 5: the three sentences, space-joined.\<close>

theorem short_circuit_returns_all_witness:
  "length (validSentences catText) = 3 \<and>
   extractiveSummarize catText 5 =
     ''The cat sat on the mat. A much longer sentence about cats and their habits in urban environments follows here. Another long descriptive sentence about feline behavior and city life continues the narrative.''"
proof -
  have le: "int (length (validSentences catText)) \<le> 5"
    by (simp add: validSentences_catText)
  show ?thesis
    using short_circuit_returns_all [OF le]
    by (simp add: validSentences_catText catSentence_def habitsSentence_def felineSentence_def)
qed

section \<open>What every summary satisfies\<close>

lemma includesStr_single: "includesStr s [c] \<longleftrightarrow> c \<in> set s"
  by (induction s) auto

lemma keepSentence_length: "keepSentence s \<Longrightarrow> 20 \<le> length s \<and> 4 \<le> length (splitWhitespace s)"
  by (auto simp: keepSentence_def split: if_splits)

lemma keepSentence_braces: "keepSentence s \<Longrightarrow> CHR ''{'' \<notin> set s \<and> CHR ''}'' \<notin> set s"
  by (auto simp: keepSentence_def includesStr_single split: if_splits)

lemma validSentences_keep: "s \<in> set (validSentences text) \<Longrightarrow> keepSentence s"
  by (auto simp: validSentences_def)

lemma topItems_subset: "set (topItems vs n) \<subseteq> set (sentenceScores vs)"
  using set_sliceTo [of n "sortBy byScoreDescending (sentenceScores vs)"]
  by (simp add: topItems_def)

lemma topItems_item:
  assumes "x \<in> set (topItems (validSentences text) n)"
  shows "originalIndex x < length (validSentences text) \<and>
         sentence x = validSentences text ! originalIndex x"
proof -
  from assms topItems_subset have "x \<in> set (sentenceScores (validSentences text))"
    by blast
  then have i: "originalIndex x < length (validSentences text)"
    and s: "sentence x = trim (validSentences text ! originalIndex x)"
    by (auto dest: sentenceScores_item)
  from i have "validSentences text ! originalIndex x \<in> set (validSentences text)"
    by simp
  then have "trim (validSentences text ! originalIndex x) = validSentences text ! originalIndex x"
    by (rule validSentences_trimmed)
  with i s show ?thesis by simp
qed

lemma summarySentences_subset:
  "set (summarySentences text n) \<subseteq> set (validSentences text)"
proof (cases "int (length (validSentences text)) \<le> n")
  case True
  then show ?thesis by (simp add: summarySentences_def)
next
  case False
  have "sentence x \<in> set (validSentences text)"
    if "x \<in> set (topItems (validSentences text) n)" for x
    using topItems_item [OF that] by (metis nth_mem)
  with False show ?thesis
    by (auto simp: summarySentences_def topSentences_def)
qed

text \<open>
  C9. No sentence of the summary contains an opening or a closing brace, and none is
  shorter than 20 characters: every sentence of the summary is a valid sentence, and
  the filter keeps neither kind.
\<close>

theorem summary_filter:
  "\<forall>s \<in> set (summarySentences text numSentences).
     CHR ''{'' \<notin> set s \<and> CHR ''}'' \<notin> set s \<and> 20 \<le> length s"
  using summarySentences_subset [of "text" numSentences]
  by (auto dest!: validSentences_keep simp: keepSentence_braces keepSentence_length dest: subsetD)

lemma length_topItems:
  "length (topItems vs n) = (if n < 0 then nat (int (length vs) + n) else min (nat n) (length vs))"
  by (simp add: topItems_def length_sliceTo_neg length_sliceTo_nonneg)

lemma distinct_index_topItems: "distinct (map originalIndex (topItems vs n))"
  by (simp add: topItems_def distinct_map_sortBy distinct_map_sliceTo)

lemma sorted_index_topItems: "sorted_wrt (<) (map originalIndex (topItems vs n))"
  using sorted_sortBy_index distinct_index_topItems
  by (simp add: strict_sorted_iff topItems_def)

text \<open>
  C3. The sentences of the summary are valid sentences taken at strictly increasing
  original indices, whatever the scores are and on both paths.
\<close>

theorem summary_order:
  "sorted_wrt (<) (summaryIndices text numSentences) \<and>
   (\<forall>i \<in> set (summaryIndices text numSentences). i < length (validSentences text)) \<and>
   summarySentences text numSentences =
     map (\<lambda>i. validSentences text ! i) (summaryIndices text numSentences)"
proof (cases "int (length (validSentences text)) \<le> numSentences")
  case True
  then show ?thesis
    by (simp add: summaryIndices_def summarySentences_def map_nth)
next
  case False
  have "map sentence (topItems (validSentences text) numSentences) =
        map (\<lambda>i. validSentences text ! i) (map originalIndex (topItems (validSentences text) numSentences))"
    using topItems_item by (auto simp: comp_def)
  with False show ?thesis
    using sorted_index_topItems [of "validSentences text" numSentences] topItems_item
    by (auto simp: summaryIndices_def summarySentences_def topSentences_def)
qed

section \<open>What the tables hold\<close>

lemma holdsCounts_empty: "holdsCounts Map.empty (\<lambda>k. 0)"
  by (simp add: holdsCounts_def getProp_def)

lemma proto_key_proto: "''__proto__'' \<in> set objectPrototypeKeys"
  by (simp add: objectPrototypeKeys_def)

lemma holdsCounts_increment:
  assumes "holdsCounts tbl f"
  shows "holdsCounts (increment tbl k) (f(k := Suc (f k)))"
  unfolding holdsCounts_def
proof (intro allI impI)
  fix k'
  assume np: "k' \<notin> set objectPrototypeKeys"
  then have ne: "k' \<noteq> ''__proto__''" using proto_key_proto by auto
  from assms np have old: "getProp tbl k' = (if f k' = 0 then Undefined else Num (real (f k')))"
    by (simp add: holdsCounts_def)
  show "getProp (increment tbl k) k' =
        (if (f(k := Suc (f k))) k' = 0 then Undefined else Num (real ((f(k := Suc (f k))) k')))"
  proof (cases "k' = k")
    case True
    with ne old show ?thesis
      by (simp add: increment_def setProp_def getProp_def orZero_def jsPlus_def
          split: option.splits if_splits)
  next
    case False
    with old show ?thesis
      by (simp add: increment_def setProp_def getProp_def)
  qed
qed

lemma holdsCounts_cong: "holdsCounts tbl f \<Longrightarrow> (\<And>k. f k = g k) \<Longrightarrow> holdsCounts tbl g"
  by (simp add: holdsCounts_def)

lemma countWords_Nil: "countWords tbl [] = tbl"
  by (simp add: countWords_def)

lemma countWords_keep:
  "\<not> isStopWord w \<and> 2 < length w \<Longrightarrow> countWords tbl (w # ws) = countWords (increment tbl w) ws"
  by (simp add: countWords_def)

lemma countWords_skip:
  "\<not> (\<not> isStopWord w \<and> 2 < length w) \<Longrightarrow> countWords tbl (w # ws) = countWords tbl ws"
  by (auto simp: countWords_def)

lemma holdsCounts_countWords:
  "holdsCounts tbl f \<Longrightarrow>
   holdsCounts (countWords tbl ws)
     (\<lambda>k. f k + count_list (filter (\<lambda>w. \<not> isStopWord w \<and> 2 < length w) ws) k)"
proof (induction ws arbitrary: tbl f)
  case Nil
  then show ?case by (simp add: countWords_Nil)
next
  case (Cons w ws)
  show ?case
  proof (cases "\<not> isStopWord w \<and> 2 < length w")
    case True
    from holdsCounts_increment [OF Cons.prems, of w]
    have "holdsCounts (countWords (increment tbl w) ws)
           (\<lambda>k. (f(w := Suc (f w))) k +
                count_list (filter (\<lambda>w. \<not> isStopWord w \<and> 2 < length w) ws) k)"
      by (rule Cons.IH)
    then have "holdsCounts (countWords (increment tbl w) ws)
           (\<lambda>k. f k + count_list (filter (\<lambda>w. \<not> isStopWord w \<and> 2 < length w) (w # ws)) k)"
      by (rule holdsCounts_cong) (use True in auto)
    then show ?thesis unfolding countWords_keep [OF True] .
  next
    case False
    from Cons.IH [OF Cons.prems]
    have "holdsCounts (countWords tbl ws)
           (\<lambda>k. f k + count_list (filter (\<lambda>w. \<not> isStopWord w \<and> 2 < length w) (w # ws)) k)"
      by (rule holdsCounts_cong) (use False in auto)
    then show ?thesis unfolding countWords_skip [OF False] .
  qed
qed

lemma holdsCounts_wordFreq_aux:
  "holdsCounts tbl f \<Longrightarrow>
   holdsCounts (foldl (\<lambda>tbl s. countWords tbl (wordsOf s)) tbl vs)
     (\<lambda>k. f k + count_list (countedWords vs) k)"
proof (induction vs arbitrary: tbl f)
  case Nil
  then show ?case by (simp add: countedWords_def)
next
  case (Cons s vs)
  from Cons.IH [OF holdsCounts_countWords [OF Cons.prems, of "wordsOf s"]]
  have "holdsCounts (foldl (\<lambda>tbl s. countWords tbl (wordsOf s)) (countWords tbl (wordsOf s)) vs)
          (\<lambda>k. f k + count_list (countedWords (s # vs)) k)"
    by (rule holdsCounts_cong) (simp add: countedWords_def)
  then show ?case by simp
qed

lemma holdsCounts_wordFreq: "holdsCounts (wordFreq vs) (count_list (countedWords vs))"
  using holdsCounts_wordFreq_aux [OF holdsCounts_empty, of vs]
  by (simp add: wordFreq_def)

lemma countPhrases_keep:
  "\<not> isStopWord a \<and> \<not> isStopWord b \<Longrightarrow>
     countPhrases tbl (a # b # ws) = countPhrases (increment tbl (a @ '' '' @ b)) (b # ws)"
  by simp

lemma countPhrases_skip:
  "\<not> (\<not> isStopWord a \<and> \<not> isStopWord b) \<Longrightarrow>
     countPhrases tbl (a # b # ws) = countPhrases tbl (b # ws)"
  by auto

lemma holdsCounts_countPhrases:
  "holdsCounts tbl f \<Longrightarrow>
   holdsCounts (countPhrases tbl ws) (\<lambda>k. f k + count_list (countedPairs ws) k)"
proof (induction ws arbitrary: tbl f rule: adjacentPhrases.induct)
  case (1 a b ws)
  show ?case
  proof (cases "\<not> isStopWord a \<and> \<not> isStopWord b")
    case True
    from holdsCounts_increment [OF "1.prems", of "a @ '' '' @ b"]
    have "holdsCounts (countPhrases (increment tbl (a @ '' '' @ b)) (b # ws))
           (\<lambda>k. (f(a @ '' '' @ b := Suc (f (a @ '' '' @ b)))) k +
                count_list (countedPairs (b # ws)) k)"
      by (rule "1.IH")
    then have "holdsCounts (countPhrases (increment tbl (a @ '' '' @ b)) (b # ws))
           (\<lambda>k. f k + count_list (countedPairs (a # b # ws)) k)"
      by (rule holdsCounts_cong) (use True in \<open>auto simp: countedPairs_def phraseKey_def\<close>)
    then show ?thesis unfolding countPhrases_keep [OF True] .
  next
    case False
    from "1.IH" [OF "1.prems"]
    have "holdsCounts (countPhrases tbl (b # ws))
           (\<lambda>k. f k + count_list (countedPairs (a # b # ws)) k)"
      by (rule holdsCounts_cong) (use False in \<open>auto simp: countedPairs_def\<close>)
    then show ?thesis unfolding countPhrases_skip [OF False] .
  qed
next
  case "2_1"
  then show ?case by (simp add: countedPairs_def)
next
  case "2_2"
  then show ?case by (simp add: countedPairs_def)
qed

lemma holdsCounts_phraseFreq_aux:
  "holdsCounts tbl f \<Longrightarrow>
   holdsCounts (foldl (\<lambda>tbl s. countPhrases tbl (wordsOf s)) tbl vs)
     (\<lambda>k. f k + count_list (countedPhrases vs) k)"
proof (induction vs arbitrary: tbl f)
  case Nil
  then show ?case by (simp add: countedPhrases_def)
next
  case (Cons s vs)
  from Cons.IH [OF holdsCounts_countPhrases [OF Cons.prems, of "wordsOf s"]]
  have "holdsCounts
          (foldl (\<lambda>tbl s. countPhrases tbl (wordsOf s)) (countPhrases tbl (wordsOf s)) vs)
          (\<lambda>k. f k + count_list (countedPhrases (s # vs)) k)"
    by (rule holdsCounts_cong) (simp add: countedPhrases_def)
  then show ?case by simp
qed

lemma holdsCounts_phraseFreq: "holdsCounts (phraseFreq vs) (count_list (countedPhrases vs))"
  using holdsCounts_phraseFreq_aux [OF holdsCounts_empty, of vs]
  by (simp add: phraseFreq_def)

lemma proto_keys_no_space: "\<forall>k \<in> set objectPrototypeKeys. CHR '' '' \<notin> set k"
  by (simp add: objectPrototypeKeys_def)

lemma phrase_not_proto: "a @ '' '' @ b \<notin> set objectPrototypeKeys"
  using proto_keys_no_space by fastforce

lemma orZero_count: "orZero (if n = 0 then Undefined else Num (real n)) = Num (real n)"
  by (simp add: orZero_def)

lemma orZero_wordFreq:
  "w \<notin> set objectPrototypeKeys \<Longrightarrow>
     orZero (getProp (wordFreq vs) w) = Num (real (count_list (countedWords vs) w))"
  using holdsCounts_wordFreq [of vs] by (simp add: holdsCounts_def orZero_count)

lemma orZero_phraseFreq:
  "orZero (getProp (phraseFreq vs) (a @ '' '' @ b)) =
     Num (real (count_list (countedPhrases vs) (a @ '' '' @ b)))"
  using holdsCounts_phraseFreq [of vs] phrase_not_proto [of a b]
  by (simp add: holdsCounts_def orZero_count)

lemma foldl_plus_counts:
  "\<forall>w \<in> set ns. orZero (getProp tbl w) = Num (real (f w)) \<Longrightarrow>
   foldl (\<lambda>score word. jsPlus score (orZero (getProp tbl word))) (Num a) ns =
     Num (a + real (sum_list (map f ns)))"
  by (induction ns arbitrary: a) (simp_all add: jsPlus_def add.assoc)

lemma frequencyScore_counts:
  assumes "\<forall>w \<in> set (filter (\<lambda>word. \<not> isStopWord word) ws). w \<notin> set objectPrototypeKeys"
  shows "frequencyScore (wordFreq vs) ws =
     Num (real (sum_list (map (count_list (countedWords vs)) (filter (\<lambda>word. \<not> isStopWord word) ws)))
          / orOne (length (filter (\<lambda>word. \<not> isStopWord word) ws)))"
proof -
  have "\<forall>w \<in> set (filter (\<lambda>word. \<not> isStopWord word) ws).
          orZero (getProp (wordFreq vs) w) = Num (real (count_list (countedWords vs) w))"
    using assms orZero_wordFreq by blast
  from foldl_plus_counts [OF this, of 0] show ?thesis
    by (simp add: frequencyScore_def jsDividedBy_def)
qed

lemma phraseSum_counts:
  "phraseSum (phraseFreq vs) (Num a) ws =
     Num (a + real (sum_list (map (\<lambda>p. count_list (countedPhrases vs) (phraseKey p)) (adjacentPhrases ws))))"
proof (induction ws arbitrary: a rule: adjacentPhrases.induct)
  case (1 x y ws)
  show ?case
    by (simp add: orZero_phraseFreq [simplified] jsPlus_def "1.IH" phraseKey_def add.assoc)
qed simp_all

lemma phraseScore_counts:
  "phraseScore (phraseFreq vs) ws =
     Num (real (sum_list (map (\<lambda>p. count_list (countedPhrases vs) (phraseKey p)) (adjacentPhrases ws)))
          / orOne (length ws))"
  using phraseSum_counts [of vs 0 ws] by (simp add: phraseScore_def jsDividedBy_def)

lemma finalScore_counts:
  assumes "\<forall>w \<in> set (filter (\<lambda>word. \<not> isStopWord word) (wordsOf s)). w \<notin> set objectPrototypeKeys"
    and "wordsOf s \<noteq> []"
  shows "finalScore (wordFreq vs) (phraseFreq vs) s index totalCount =
     Num (real (sum_list (map (count_list (countedWords vs)) (filter (\<lambda>word. \<not> isStopWord word) (wordsOf s))))
            / orOne (length (filter (\<lambda>word. \<not> isStopWord word) (wordsOf s))) * 0.3 +
          real (sum_list (map (\<lambda>p. count_list (countedPhrases vs) (phraseKey p)) (adjacentPhrases (wordsOf s))))
            / orOne (length (wordsOf s)) * 0.2 +
          positionScore index totalCount * 0.2 +
          lengthScore (wordsOf s) * 0.15 +
          real (uniqueWords (wordsOf s)) / real (length (wordsOf s)) * 0.15)"
  using assms
  by (simp add: finalScore_def frequencyScore_counts phraseScore_counts diversityScore_def
      jsTimes_def jsPlus_def Let_def)

lemma holdsMembers_empty: "holdsMembers Map.empty"
  by (simp add: holdsMembers_def getProp_def)

lemma holdsMembers_increment: "holdsMembers tbl \<Longrightarrow> holdsMembers (increment tbl k)"
  by (auto simp: holdsMembers_def increment_def setProp_def getProp_def orZero_def jsPlus_def
      split: option.splits)

lemma holdsMembers_countWords: "holdsMembers tbl \<Longrightarrow> holdsMembers (countWords tbl ws)"
  unfolding countWords_def
  by (induction ws arbitrary: tbl) (simp_all add: holdsMembers_increment)

lemma holdsMembers_wordFreq_aux:
  "holdsMembers tbl \<Longrightarrow> holdsMembers (foldl (\<lambda>tbl s. countWords tbl (wordsOf s)) tbl vs)"
  by (induction vs arbitrary: tbl) (simp_all add: holdsMembers_countWords)

lemma getProp_wordFreq_member:
  "k \<in> set objectPrototypeKeys \<Longrightarrow> getProp (wordFreq vs) k = NonNumeric"
  using holdsMembers_wordFreq_aux [OF holdsMembers_empty, of vs]
  by (simp add: wordFreq_def holdsMembers_def)

lemma jsPlus_Num: "jsPlus (Num x) (Num y) = Num (x + y)"
  by (simp add: jsPlus_def)

lemma jsPlus_NonNumeric_left: "jsPlus NonNumeric b = NonNumeric"
  by (simp add: jsPlus_def)

lemma jsPlus_NonNumeric_right: "jsPlus a NonNumeric = NonNumeric"
  by (cases a) (simp_all add: jsPlus_def)

lemma jsPlus_NaN_left: "b \<noteq> NonNumeric \<Longrightarrow> jsPlus NaN b = NaN"
  by (cases b) (simp_all add: jsPlus_def)

lemma jsTimes_NaN: "jsTimes NaN r = NaN"
  by (simp add: jsTimes_def)

lemma jsTimes_not_NonNumeric: "jsTimes a r \<noteq> NonNumeric"
  by (cases a) (simp_all add: jsTimes_def)

lemma orZero_NonNumeric: "orZero NonNumeric = NonNumeric"
  by (simp add: orZero_def)

lemma foldl_plus_NonNumeric:
  "foldl (\<lambda>score word. jsPlus score (orZero (getProp tbl word))) NonNumeric ns = NonNumeric"
  by (induction ns) (simp_all add: jsPlus_NonNumeric_left)

lemma foldl_plus_member:
  "\<exists>w \<in> set ns. getProp tbl w = NonNumeric \<Longrightarrow>
   foldl (\<lambda>score word. jsPlus score (orZero (getProp tbl word))) (Num a) ns = NonNumeric"
proof (induction ns arbitrary: a)
  case Nil
  then show ?case by simp
next
  case (Cons w ns)
  show ?case
  proof (cases "getProp tbl w = NonNumeric")
    case True
    then show ?thesis
      by (simp add: orZero_NonNumeric jsPlus_NonNumeric_right foldl_plus_NonNumeric)
  next
    case False
    with Cons.prems have ex: "\<exists>w \<in> set ns. getProp tbl w = NonNumeric" by auto
    from False obtain r where "orZero (getProp tbl w) = Num r"
      by (cases "getProp tbl w") (simp_all add: orZero_def)
    then show ?thesis using Cons.IH [OF ex] by (simp add: jsPlus_Num)
  qed
qed

lemma frequencyScore_member:
  assumes "w \<in> set ws" and "\<not> isStopWord w" and "w \<in> set objectPrototypeKeys"
  shows "frequencyScore (wordFreq vs) ws = NaN"
proof -
  have "\<exists>w \<in> set (filter (\<lambda>word. \<not> isStopWord word) ws). getProp (wordFreq vs) w = NonNumeric"
    using assms getProp_wordFreq_member by auto
  from foldl_plus_member [OF this, of 0] show ?thesis
    by (simp add: frequencyScore_def jsDividedBy_def)
qed

lemma finalScore_member:
  assumes "w \<in> set (wordsOf s)" and "\<not> isStopWord w" and "w \<in> set objectPrototypeKeys"
  shows "finalScore (wordFreq vs) phraseTbl s index totalCount = NaN"
  using frequencyScore_member [OF assms, of vs]
  by (simp add: finalScore_def Let_def jsTimes_NaN jsPlus_NaN_left jsTimes_not_NonNumeric)

section \<open>The scores of the worked example\<close>

lemma cat_words:
  "length (wordsOf catSentence) = 6"
  "length (filter (\<lambda>word. \<not> isStopWord word) (wordsOf catSentence)) = 3"
  "uniqueWords (wordsOf catSentence) = 3"
  "sum_list (map (count_list (countedWords catValid)) (filter (\<lambda>word. \<not> isStopWord word) (wordsOf catSentence))) = 3"
  "sum_list (map (\<lambda>p. count_list (countedPhrases catValid) (phraseKey p)) (adjacentPhrases (wordsOf catSentence))) = 1"
  "\<forall>w \<in> set (filter (\<lambda>word. \<not> isStopWord word) (wordsOf catSentence)). w \<notin> set objectPrototypeKeys"
  by code_simp+

lemma habits_words:
  "length (wordsOf habitsSentence) = 14"
  "length (filter (\<lambda>word. \<not> isStopWord word) (wordsOf habitsSentence)) = 10"
  "uniqueWords (wordsOf habitsSentence) = 10"
  "sum_list (map (count_list (countedWords catValid)) (filter (\<lambda>word. \<not> isStopWord word) (wordsOf habitsSentence))) = 12"
  "sum_list (map (\<lambda>p. count_list (countedPhrases catValid) (phraseKey p)) (adjacentPhrases (wordsOf habitsSentence))) = 8"
  "\<forall>w \<in> set (filter (\<lambda>word. \<not> isStopWord word) (wordsOf habitsSentence)). w \<notin> set objectPrototypeKeys"
  by code_simp+

lemma feline_words:
  "length (wordsOf felineSentence) = 13"
  "length (filter (\<lambda>word. \<not> isStopWord word) (wordsOf felineSentence)) = 11"
  "uniqueWords (wordsOf felineSentence) = 11"
  "sum_list (map (count_list (countedWords catValid)) (filter (\<lambda>word. \<not> isStopWord word) (wordsOf felineSentence))) = 13"
  "sum_list (map (\<lambda>p. count_list (countedPhrases catValid) (phraseKey p)) (adjacentPhrases (wordsOf felineSentence))) = 9"
  "\<forall>w \<in> set (filter (\<lambda>word. \<not> isStopWord word) (wordsOf felineSentence)). w \<notin> set objectPrototypeKeys"
  by code_simp+

lemma cat_score:
  "finalScore (wordFreq catValid) (phraseFreq catValid) catSentence 0 3 = Num catScore"
proof -
  have "wordsOf catSentence \<noteq> []"
    using cat_words(1) by fastforce
  from finalScore_counts [OF cat_words(6) this] show ?thesis
    by (simp add: cat_words positionScore_def lengthScore_def orOne_def catScore_def)
qed

lemma habits_score:
  "finalScore (wordFreq catValid) (phraseFreq catValid) habitsSentence (Suc 0) 3 = Num habitsScore"
proof -
  have "wordsOf habitsSentence \<noteq> []"
    using habits_words(1) by fastforce
  from finalScore_counts [OF habits_words(6) this] show ?thesis
    by (simp add: habits_words positionScore_def lengthScore_def orOne_def habitsScore_def)
qed

lemma feline_score:
  "finalScore (wordFreq catValid) (phraseFreq catValid) felineSentence 2 3 = Num felineScore"
proof -
  have "wordsOf felineSentence \<noteq> []"
    using feline_words(1) by fastforce
  from finalScore_counts [OF feline_words(6) this] show ?thesis
    by (simp add: feline_words positionScore_def lengthScore_def orOne_def felineScore_def)
qed

lemma exp_bounds:
  "exp (- (7 / 10) :: real) < exp (- (3 / 10))"
  "exp (- (7 / 10) :: real) < exp (- (7 / 20))"
  "exp (- (3 / 10) :: real) \<le> 10 / 13"
  "13 / 20 \<le> exp (- (7 / 20) :: real)"
proof -
  show "exp (- (7 / 10) :: real) < exp (- (3 / 10))" by simp
  show "exp (- (7 / 10) :: real) < exp (- (7 / 20))" by simp
  have "1 + 3 / 10 \<le> exp (3 / 10 :: real)" by (rule exp_ge_add_one_self)
  then have "inverse (exp (3 / 10 :: real)) \<le> inverse (13 / 10)"
    by (intro le_imp_inverse_le) simp_all
  then show "exp (- (3 / 10) :: real) \<le> 10 / 13"
    by (simp add: exp_minus)
  have "1 + (- (7 / 20)) \<le> exp (- (7 / 20) :: real)" by (rule exp_ge_add_one_self)
  then show "13 / 20 \<le> exp (- (7 / 20) :: real)" by simp
qed

lemma score_order: "catScore < habitsScore" "catScore < felineScore" "habitsScore < felineScore"
  unfolding catScore_def habitsScore_def felineScore_def using exp_bounds by linarith+

lemma trim_cat:
  "trim catSentence = catSentence" "trim habitsSentence = habitsSentence"
  "trim felineSentence = felineSentence"
  unfolding catSentence_def habitsSentence_def felineSentence_def by code_simp+

lemma sentenceScores_cat:
  "sentenceScores catValid =
     [\<lparr>sentence = catSentence, originalIndex = 0, score = Num catScore\<rparr>,
      \<lparr>sentence = habitsSentence, originalIndex = 1, score = Num habitsScore\<rparr>,
      \<lparr>sentence = felineSentence, originalIndex = 2, score = Num felineScore\<rparr>]"
proof -
  have "enumerate 0 catValid = [(0, catSentence), (1, habitsSentence), (2, felineSentence)]"
    by (simp add: catValid_def)
  moreover have "length catValid = 3" by (simp add: catValid_def)
  ultimately show ?thesis
    by (simp add: sentenceScores_def trim_cat cat_score habits_score feline_score)
qed

lemma topItems_cat:
  "topItems catValid 2 =
     [\<lparr>sentence = habitsSentence, originalIndex = 1, score = Num habitsScore\<rparr>,
      \<lparr>sentence = felineSentence, originalIndex = 2, score = Num felineScore\<rparr>]"
  using score_order
  by (simp add: topItems_def sentenceScores_cat sortBy_def byScoreDescending_def
      byOriginalIndex_def jsMinus_def positive_def sliceTo_def)

lemma validSentences_cat: "validSentences catText = catValid"
  by (simp add: validSentences_catText catValid_def)

lemma topItems_cat_one:
  "topItems catValid 1 =
     [\<lparr>sentence = felineSentence, originalIndex = 2, score = Num felineScore\<rparr>]"
  using score_order
  by (simp add: topItems_def sentenceScores_cat sortBy_def byScoreDescending_def
      byOriginalIndex_def jsMinus_def positive_def sliceTo_def)

lemma topItems_cat_minus_one:
  "topItems catValid (- 1) =
     [\<lparr>sentence = habitsSentence, originalIndex = 1, score = Num habitsScore\<rparr>,
      \<lparr>sentence = felineSentence, originalIndex = 2, score = Num felineScore\<rparr>]"
  using score_order
  by (simp add: topItems_def sentenceScores_cat sortBy_def byScoreDescending_def
      byOriginalIndex_def jsMinus_def positive_def sliceTo_def)

lemma topItems_zero: "topItems vs 0 = []"
  by (simp add: topItems_def sliceTo_def sortBy_def)

lemma extractiveSummarize_zero: "extractiveSummarize text 0 = []"
  by (simp add: extractiveSummarize_def topSentences_def topItems_zero)

section \<open>The end-to-end scenario\<close>

text \<open>
  C2, as stated, fails in one point: the filter does not reject the first sentence. It
  has 23 characters and 6 words, which is neither below 20 characters nor below 4
  words, and none of the other tests of the filter applies to it.
\<close>

theorem filter_keeps_cat_sentence:
  "length ''The cat sat on the mat.'' = 23 \<and>
   length (splitWhitespace ''The cat sat on the mat.'') = 6 \<and>
   keepSentence ''The cat sat on the mat.'' \<and>
   ''The cat sat on the mat.'' \<in> set (validSentences catText)"
proof -
  have "length ''The cat sat on the mat.'' = 23"
    and "length (splitWhitespace ''The cat sat on the mat.'') = 6"
    and "keepSentence ''The cat sat on the mat.''"
    by code_simp+
  then show ?thesis
    by (simp add: validSentences_catText catSentence_def)
qed

text \<open>
  C2, amended. Cleaning strips the citation and the URL; all three sentences are valid;
  since 3 exceeds the count 2 the sentences are scored, the first has the lowest score,
  and the summary is the two long sentences in their order, joined by one space.
\<close>

theorem cat_text_summary:
  "cleaned catText = ''The cat sat on the mat. A much longer sentence about cats and their habits in urban environments follows here. Another long descriptive sentence about feline behavior and city life continues the narrative.'' \<and>
   validSentences catText =
     [''The cat sat on the mat.'',
      ''A much longer sentence about cats and their habits in urban environments follows here.'',
      ''Another long descriptive sentence about feline behavior and city life continues the narrative.''] \<and>
   extractiveSummarize catText 2 =
     ''A much longer sentence about cats and their habits in urban environments follows here. Another long descriptive sentence about feline behavior and city life continues the narrative.''"
proof -
  have "extractiveSummarize catText 2 = habitsSentence @ '' '' @ felineSentence"
    by (simp add: extractiveSummarize_def validSentences_cat topSentences_def topItems_cat)
       (simp add: catValid_def)
  then show ?thesis
    by (simp add: cleaned_catText validSentences_catText catSentence_def habitsSentence_def
        felineSentence_def)
qed

text \<open>The two other scenarios of the specification: the empty text, and a text of code.\<close>

lemma empty_input: "extractiveSummarize [] 5 = []"
proof -
  have "validSentences [] = []" by code_simp
  then show ?thesis by (simp add: extractiveSummarize_def)
qed

lemma all_code_input:
  "extractiveSummarize (''import foo'' @ [CHR 0x0A] @ ''def bar(): x = 1 {}'') 5 = []"
proof -
  have "validSentences (''import foo'' @ [CHR 0x0A] @ ''def bar(): x = 1 {}'') = []" by code_simp
  then show ?thesis by (simp add: extractiveSummarize_def)
qed

section \<open>The general properties on the worked example\<close>

theorem summary_order_witness:
  "summaryIndices catText 2 = [1, 2] \<and>
   summarySentences catText 2 = [validSentences catText ! 1, validSentences catText ! 2] \<and>
   sorted_wrt (<) (summaryIndices catText 2)"
proof -
  have "summaryIndices catText 2 = [1, 2]"
    by (simp add: summaryIndices_def validSentences_cat topItems_cat) (simp add: catValid_def)
  with summary_order [of catText 2] show ?thesis by simp
qed

theorem summary_filter_witness:
  "habitsSentence \<in> set (summarySentences catText 2) \<and>
   CHR ''{'' \<notin> set habitsSentence \<and> CHR ''}'' \<notin> set habitsSentence \<and>
   20 \<le> length habitsSentence"
proof -
  have "habitsSentence \<in> set (summarySentences catText 2)"
    by (simp add: summarySentences_def validSentences_cat topSentences_def topItems_cat)
       (simp add: catValid_def)
  with summary_filter [of catText 2] show ?thesis by blast
qed

section \<open>Counts that are not positive\<close>

lemma requestedCount_cases:
  "requestedCount None = 5" "requestedCount (Some 0) = 5"
  "n \<noteq> 0 \<Longrightarrow> requestedCount (Some n) = n"
  by (simp_all add: requestedCount_def)

lemma handler_count_zero:
  "extractiveSummarize text (requestedCount (Some 0)) = extractiveSummarizeDefault text"
  by (simp add: requestedCount_def extractiveSummarizeDefault_def)

lemma sentences_differ:
  "habitsSentence @ '' '' @ felineSentence \<noteq> catSentence @ '' '' @ habitsSentence @ '' '' @ felineSentence"
  "habitsSentence @ '' '' @ felineSentence \<noteq> felineSentence"
  "catSentence @ '' '' @ habitsSentence @ '' '' @ felineSentence \<noteq> []"
  "felineSentence \<noteq> []"
  by (simp_all add: catSentence_def habitsSentence_def felineSentence_def)

text \<open>
  C1, as stated, fails: with the count 0 the summary of the worked example is empty, and
  with the count -1 it is the two long sentences; neither is the summary for the count
  5 (all three sentences) or for the count 1 (the last sentence).
\<close>

theorem nonpositive_count_not_defaulted:
  "extractiveSummarize catText 0 = [] \<and>
   extractiveSummarize catText 0 \<noteq> extractiveSummarize catText 5 \<and>
   extractiveSummarize catText 0 \<noteq> extractiveSummarize catText 1 \<and>
   extractiveSummarize catText (- 1) \<noteq> extractiveSummarize catText 5 \<and>
   extractiveSummarize catText (- 1) \<noteq> extractiveSummarize catText 1"
proof -
  have 0: "extractiveSummarize catText 0 = []"
    by (rule extractiveSummarize_zero)
  have m: "extractiveSummarize catText (- 1) = habitsSentence @ '' '' @ felineSentence"
    by (simp add: extractiveSummarize_def validSentences_cat topSentences_def
        topItems_cat_minus_one) (simp add: catValid_def)?
  have 5: "extractiveSummarize catText 5 =
           catSentence @ '' '' @ habitsSentence @ '' '' @ felineSentence"
    by (simp add: extractiveSummarize_def validSentences_cat) (simp add: catValid_def)?
  have 1: "extractiveSummarize catText 1 = felineSentence"
    by (simp add: extractiveSummarize_def validSentences_cat topSentences_def topItems_cat_one)
       (simp add: catValid_def)?
  show ?thesis
    unfolding 0 m 5 1 using sentences_differ by (metis (no_types))
qed

text \<open>
  What the selection returns, for any order of the scored sentences that the sort by
  score may have produced: the valid sentences at the original indices of the slice,
  in increasing order.
\<close>

lemma index_insertSorted:
  "map originalIndex (insertSorted byOriginalIndex x ys) =
     insort (originalIndex x) (map originalIndex ys)"
  by (induction ys) (auto simp: byOriginalIndex_def positive_def)

lemma index_sortBy:
  "map originalIndex (sortBy byOriginalIndex xs) = sort (map originalIndex xs)"
  unfolding sortBy_def sort_key_def
  by (induction xs) (simp_all add: index_insertSorted)

lemma scored_items_sentences:
  assumes "set items \<subseteq> set (sentenceScores (validSentences text))"
  shows "map sentence items = map (\<lambda>i. validSentences text ! i) (map originalIndex items)"
proof -
  have "sentence x = validSentences text ! originalIndex x" if "x \<in> set items" for x
  proof -
    from that assms have "x \<in> set (sentenceScores (validSentences text))" by blast
    then have i: "originalIndex x < length (validSentences text)"
      and s: "sentence x = trim (validSentences text ! originalIndex x)"
      by (auto dest: sentenceScores_item)
    from i have "validSentences text ! originalIndex x \<in> set (validSentences text)" by simp
    then have "trim (validSentences text ! originalIndex x) = validSentences text ! originalIndex x"
      by (rule validSentences_trimmed)
    with s show ?thesis by simp
  qed
  then show ?thesis by (simp add: comp_def)
qed

lemma selection_of_any_ranking:
  assumes "set ranked \<subseteq> set (sentenceScores (validSentences text))"
  shows "map sentence (sortBy byOriginalIndex (sliceTo n ranked)) =
         map (\<lambda>i. validSentences text ! i) (sort (map originalIndex (sliceTo n ranked)))"
proof -
  have "set (sortBy byOriginalIndex (sliceTo n ranked)) \<subseteq> set (sentenceScores (validSentences text))"
    using assms set_sliceTo [of n ranked] by auto
  from scored_items_sentences [OF this] show ?thesis
    by (simp only: index_sortBy)
qed

lemma ranking_permutes:
  "length (ranking vs) = length vs" "distinct (ranking vs)" "set (ranking vs) = {..<length vs}"
proof -
  show "length (ranking vs) = length vs" by (simp add: ranking_def)
  show "distinct (ranking vs)" by (simp add: ranking_def distinct_map_sortBy)
  have "set (ranking vs) = set (map originalIndex (sentenceScores vs))"
    by (simp only: ranking_def set_map set_sortBy)
  also have "\<dots> = set [0..<length vs]"
    by (simp only: map_index_sentenceScores)
  finally show "set (ranking vs) = {..<length vs}"
    by (simp add: atLeast0LessThan)
qed

lemma topSentences_ranking:
  "topSentences (validSentences text) n =
     map (\<lambda>i. validSentences text ! i) (sort (map originalIndex
       (sliceTo n (sortBy byScoreDescending (sentenceScores (validSentences text))))))"
  unfolding topSentences_def topItems_def
  by (rule selection_of_any_ranking) simp

lemma index_sliceTo_negative:
  "n < 0 \<Longrightarrow>
   map originalIndex (sliceTo n (sortBy byScoreDescending (sentenceScores vs))) =
     take (nat (int (length vs) + n)) (ranking vs)"
  by (simp add: sliceTo_def ranking_def take_map)

lemma index_sliceTo_nonneg:
  "0 \<le> n \<Longrightarrow>
   map originalIndex (sliceTo n (sortBy byScoreDescending (sentenceScores vs))) =
     take (nat n) (ranking vs)"
  by (simp add: sliceTo_def ranking_def take_map)

text \<open>
  When every score is a number, the sort by score returns the sentences by descending
  score, so that the ranking starts with the best sentence.
\<close>

lemma insertSorted_descending:
  assumes "\<forall>y \<in> set (x # ys). \<exists>r. score y = Num r"
    and "sorted_wrt (\<lambda>a b. notBelow (score a) (score b)) ys"
  shows "sorted_wrt (\<lambda>a b. notBelow (score a) (score b)) (insertSorted byScoreDescending x ys)"
  using assms
proof (induction ys)
  case Nil
  then show ?case by simp
next
  case (Cons y ys)
  from Cons.prems(1) obtain rx ry where rx: "score x = Num rx" and ry: "score y = Num ry"
    by auto
  show ?case
  proof (cases "positive (byScoreDescending x y)")
    case True
    then have lt: "rx < ry" by (simp add: byScoreDescending_def jsMinus_def positive_def rx ry)
    have ih: "sorted_wrt (\<lambda>a b. notBelow (score a) (score b)) (insertSorted byScoreDescending x ys)"
      using Cons.prems by (intro Cons.IH) auto
    have "\<forall>z \<in> set (insertSorted byScoreDescending x ys). notBelow (score y) (score z)"
      using Cons.prems(2) lt by (auto simp: notBelow_def rx ry)
    with ih True show ?thesis by simp
  next
    case False
    then have le: "ry \<le> rx" by (simp add: byScoreDescending_def jsMinus_def positive_def rx ry)
    have "notBelow (score x) (score z)" if z: "z \<in> set ys" for z
    proof -
      from Cons.prems(1) z obtain rz where rz: "score z = Num rz" by auto
      from Cons.prems(2) z have "notBelow (score y) (score z)" by simp
      then have "rz \<le> ry" by (simp add: notBelow_def ry rz)
      with le show ?thesis by (simp add: notBelow_def rx rz)
    qed
    moreover have "notBelow (score x) (score y)" using le by (simp add: notBelow_def rx ry)
    ultimately show ?thesis using False Cons.prems(2) by simp
  qed
qed

lemma sortBy_descending:
  assumes "\<forall>y \<in> set xs. \<exists>r. score y = Num r"
  shows "sorted_wrt (\<lambda>a b. notBelow (score a) (score b)) (sortBy byScoreDescending xs)"
  using assms
proof (induction xs)
  case Nil
  then show ?case by (simp add: sortBy_def)
next
  case (Cons x xs)
  have s: "sorted_wrt (\<lambda>a b. notBelow (score a) (score b)) (sortBy byScoreDescending xs)"
    using Cons by simp
  have "\<forall>y \<in> set (x # sortBy byScoreDescending xs). \<exists>r. score y = Num r"
    using Cons.prems by simp
  from insertSorted_descending [OF this s] show ?case
    by (simp add: sortBy_def)
qed

text \<open>
  C1, amended. \<^verbatim>\<open>extractiveSummarize\<close> applies no default and no clamp to a count that
  is passed; the default 5 is taken only when the argument is left out. The count 0
  gives the empty string for every text. A negative count \<open>-k\<close> gives the first
  \<open>m - k\<close> sentences of the ranking of the \<open>m\<close> valid sentences (none when
  \<open>m \<le> k\<close>), put back into their original order and joined by single spaces. The
  function is total on these counts. (The click handler replaces a count of 0 by 5
  before the call and passes a negative count on as it is: \<open>handler_count_zero\<close>,
  \<open>requestedCount_cases\<close>.)
\<close>

theorem nonpositive_count:
  assumes "numSentences \<le> 0"
  shows "extractiveSummarizeCall text (Some numSentences) = extractiveSummarize text numSentences \<and>
         extractiveSummarizeCall text None = extractiveSummarize text 5 \<and>
         (numSentences = 0 \<longrightarrow> extractiveSummarize text numSentences = []) \<and>
         (numSentences < 0 \<longrightarrow>
            extractiveSummarize text numSentences =
              joinSpace (map (\<lambda>i. validSentences text ! i)
                (sort (take (nat (int (length (validSentences text)) + numSentences))
                   (ranking (validSentences text))))) \<and>
            distinct (ranking (validSentences text)) \<and>
            set (ranking (validSentences text)) = {..<length (validSentences text)})"
proof -
  have call: "extractiveSummarizeCall text (Some numSentences) = extractiveSummarize text numSentences"
    "extractiveSummarizeCall text None = extractiveSummarize text 5"
    by (simp_all add: extractiveSummarizeCall_def)
  have zero: "extractiveSummarize text 0 = []"
    by (rule extractiveSummarize_zero)
  have neg: "extractiveSummarize text numSentences =
      joinSpace (map (\<lambda>i. validSentences text ! i)
        (sort (take (nat (int (length (validSentences text)) + numSentences))
           (ranking (validSentences text)))))" if n: "numSentences < 0"
  proof -
    from n have "\<not> int (length (validSentences text)) \<le> numSentences" by simp
    then have "extractiveSummarize text numSentences =
        joinSpace (topSentences (validSentences text) numSentences)"
      by (simp add: extractiveSummarize_def)
    then show ?thesis
      by (simp only: topSentences_ranking index_sliceTo_negative [OF n])
  qed
  from call zero neg ranking_permutes(2,3) show ?thesis by blast
qed

lemma ranking_cat: "ranking catValid = [2, 1, 0]"
  using score_order
  by (simp add: ranking_def sentenceScores_cat sortBy_def byScoreDescending_def jsMinus_def
      positive_def)

theorem nonpositive_count_witness:
  "(- 1 :: int) \<le> 0 \<and> (0 :: int) \<le> 0 \<and>
   ranking (validSentences catText) = [2, 1, 0] \<and>
   extractiveSummarize catText (- 1) = habitsSentence @ '' '' @ felineSentence \<and>
   extractiveSummarize catText 0 = [] \<and>
   extractiveSummarizeCall catText (Some (- 1)) = extractiveSummarize catText (- 1)"
proof -
  have r: "ranking (validSentences catText) = [2, 1, 0]"
    by (simp add: validSentences_cat ranking_cat)
  have s: "sort (take (nat (int (length (validSentences catText)) + - 1)) [2, 1, 0 :: nat]) = [1, 2]"
    by (simp add: validSentences_catText)
  from nonpositive_count [of "- 1" catText]
  have "extractiveSummarizeCall catText (Some (- 1)) = extractiveSummarize catText (- 1)"
    and "extractiveSummarize catText (- 1) =
      joinSpace (map (\<lambda>i. validSentences catText ! i)
        (sort (take (nat (int (length (validSentences catText)) + - 1))
           (ranking (validSentences catText)))))"
    by simp_all
  moreover from nonpositive_count [of 0 catText]
  have "extractiveSummarize catText 0 = []" by simp
  ultimately show ?thesis
    unfolding r s by (simp add: validSentences_catText)
qed

section \<open>The number of sentences\<close>

lemma negative_count_length:
  "numSentences < 0 \<Longrightarrow>
   int (length (summarySentences text numSentences)) \<noteq>
     min numSentences (int (length (validSentences text)))"
  by simp

text \<open>
  C5, as stated, fails for a negative count: with the count -1 the summary of the worked
  example has 2 sentences, and the minimum of -1 and 3 is -1.
\<close>

theorem summary_length_negative:
  "length (validSentences catText) = 3 \<and>
   summarySentences catText (- 1) = [habitsSentence, felineSentence] \<and>
   extractiveSummarize catText (- 1) = joinSpace (summarySentences catText (- 1)) \<and>
   int (length (summarySentences catText (- 1))) \<noteq>
     min (- 1) (int (length (validSentences catText)))"
proof -
  have s: "summarySentences catText (- 1) = [habitsSentence, felineSentence]"
    by (simp add: summarySentences_def validSentences_cat topSentences_def
        topItems_cat_minus_one) (simp add: catValid_def)?
  show ?thesis
    unfolding s by (simp add: validSentences_catText extractiveSummarize_joins s)
qed

text \<open>
  C5, amended. For every count \<open>n \<ge> 0\<close> the returned string is the space-join of
  \<open>min n m\<close> sentences, \<open>m\<close> the number of valid sentences: all of them on the
  short circuit, exactly \<open>n\<close> after scoring. Each of them is a valid sentence and
  none is empty.
\<close>

theorem summary_length_nonneg:
  assumes "0 \<le> numSentences"
  shows "extractiveSummarize text numSentences = joinSpace (summarySentences text numSentences) \<and>
         set (summarySentences text numSentences) \<subseteq> set (validSentences text) \<and>
         [] \<notin> set (summarySentences text numSentences) \<and>
         length (summarySentences text numSentences) =
           min (nat numSentences) (length (validSentences text))"
proof -
  have "[] \<notin> set (validSentences text)"
    using keepSentence_length validSentences_keep by fastforce
  then have "[] \<notin> set (summarySentences text numSentences)"
    using summarySentences_subset [of "text" numSentences] by blast
  moreover have "length (summarySentences text numSentences) =
      min (nat numSentences) (length (validSentences text))"
    using assms by (auto simp: summarySentences_def topSentences_def length_topItems)
  ultimately show ?thesis
    using summarySentences_subset [of "text" numSentences]
    by (simp add: extractiveSummarize_joins)
qed

theorem summary_length_nonneg_witness:
  "(0 :: int) \<le> 2 \<and> length (validSentences catText) = 3 \<and>
   length (summarySentences catText 2) = 2 \<and>
   extractiveSummarize catText 2 = joinSpace (summarySentences catText 2)"
  using summary_length_nonneg [of 2 catText] by (simp add: validSentences_catText)

section \<open>Cleaning twice\<close>

lemma isSpace_space: "isSpace CHR '' ''"
  by code_simp

lemma class_facts:
  "\<not> isWordChar CHR ''[''" "\<not> isWordChar CHR ''^''" "\<not> isWordChar CHR '':''" "\<not> isWordChar CHR ''(''"
  "\<not> isTerminator CHR ''[''" "\<not> isTerminator CHR ''^''" "\<not> isTerminator CHR '':''" "\<not> isTerminator CHR ''(''"
  by code_simp+

lemma cleanAlphabet_no_special:
  assumes "cleanAlphabet s"
  shows "CHR ''['' \<notin> set s" "CHR ''^'' \<notin> set s" "CHR '':'' \<notin> set s" "CHR ''('' \<notin> set s"
  using assms class_facts unfolding cleanAlphabet_def by fastforce+

lemma removeCitations_id: "CHR ''['' \<notin> set s \<Longrightarrow> removeCitations s = s"
  by (induction s) auto

lemma removeCaretLines_id: "CHR ''^'' \<notin> set s \<Longrightarrow> removeCaretLines s = s"
  by (induction s) auto

lemma urlRest_colon: "urlRest s = Some r \<Longrightarrow> CHR '':'' \<in> set s"
  by (auto simp: urlRest_def prefix_def split: if_splits)

lemma removeUrls_id: "CHR '':'' \<notin> set s \<Longrightarrow> removeUrls s = s"
proof (induction s)
  case Nil
  then show ?case by simp
next
  case (Cons c cs)
  then have "urlRest (c # cs) = None"
    using urlRest_colon [of "c # cs"] by (cases "urlRest (c # cs)") auto
  with Cons show ?case by simp
qed

lemma removeParens_id: "CHR ''('' \<notin> set s \<Longrightarrow> removeParens s = s"
  by (induction s) auto

lemma set_collapseWhitespace:
  "set (collapseWhitespace s) \<subseteq> {c \<in> set s. \<not> isSpace c} \<union> {CHR '' ''}"
  by (induction s rule: collapseWhitespace.induct) (auto dest: set_dropWhileD)

lemma cleanAlphabet_strip_collapse: "cleanAlphabet (stripSpecial (collapseWhitespace s))"
  using set_collapseWhitespace [of s]
  by (auto simp: cleanAlphabet_def stripSpecial_def)

lemma cleanAlphabet_trim: "cleanAlphabet s \<Longrightarrow> cleanAlphabet (trim s)"
  using set_trim [of s] by (auto simp: cleanAlphabet_def)

lemma cleanAlphabet_cleaned: "cleanAlphabet (cleaned x)"
  by (simp add: cleaned_def cleanAlphabet_trim cleanAlphabet_strip_collapse)

lemma cleanAlphabet_collapse: "cleanAlphabet s \<Longrightarrow> cleanAlphabet (collapseWhitespace s)"
  using set_collapseWhitespace [of s] by (auto simp: cleanAlphabet_def)

lemma stripSpecial_id:
  assumes "cleanAlphabet s"
  shows "stripSpecial s = s"
  unfolding stripSpecial_def
proof (rule filter_True, rule ballI)
  fix c
  assume "c \<in> set s"
  with assms have "isWordChar c \<or> c = CHR '' '' \<or> isTerminator c"
    unfolding cleanAlphabet_def by blast
  then show "isWordChar c \<or> isSpace c \<or> isTerminator c"
    using isSpace_space by blast
qed

lemma trim_eq_iff: "trim s = s \<longleftrightarrow> isTrimmed s"
proof
  assume eq: "trim s = s"
  show "isTrimmed s"
  proof (cases "s = []")
    case True
    then show ?thesis by (simp add: isTrimmed_def)
  next
    case False
    have "length (trim s) \<le> length (dropWhile isSpace s)"
      using length_dropWhile_le [of isSpace "rev (dropWhile isSpace s)"]
      by (simp add: trim_def)
    with eq have "length s \<le> length (dropWhile isSpace s)" by simp
    moreover have "length (takeWhile isSpace s) + length (dropWhile isSpace s) = length s"
      using length_append [of "takeWhile isSpace s" "dropWhile isSpace s"] by simp
    ultimately have "length (takeWhile isSpace s) = 0" by linarith
    then have "takeWhile isSpace s = []" by (simp only: length_0_conv)
    then have ts: "dropWhile isSpace s = s"
      using takeWhile_dropWhile_id [of isSpace s] by simp
    then have hd: "\<not> isSpace (hd s)"
      using False by (metis hd_dropWhile)
    have "rev (dropWhile isSpace (rev s)) = s"
      using eq unfolding trim_def ts .
    then have "dropWhile isSpace (rev s) = rev s"
      by (rule rev_swap [THEN iffD1])
    then have "\<not> isSpace (hd (rev s))"
      using False by (metis hd_dropWhile rev_is_Nil_conv)
    then have "\<not> isSpace (last s)"
      using False by (simp add: hd_rev)
    with hd show ?thesis by (simp add: isTrimmed_def)
  qed
next
  assume "isTrimmed s"
  then show "trim s = s"
  proof (cases "s = []")
    case True
    then show ?thesis by (simp add: trim_def)
  next
    case False
    with \<open>isTrimmed s\<close> have h: "\<not> isSpace (hd s)" and l: "\<not> isSpace (last s)"
      by (simp_all add: isTrimmed_def)
    from h False have 1: "dropWhile isSpace s = s" by (cases s) auto
    from l False have "\<not> isSpace (hd (rev s))" by (simp add: hd_rev)
    with False have 2: "dropWhile isSpace (rev s) = rev s" by (cases "rev s") auto
    show ?thesis by (simp add: trim_def 1 2)
  qed
qed

lemma isTrimmed_trim: "isTrimmed (trim s)"
  using trim_idem [of s] by (simp add: trim_eq_iff)

lemma isTrimmed_cleaned: "isTrimmed (cleaned x)"
  by (simp add: cleaned_def isTrimmed_trim)

lemma collapse_Nil_iff: "collapseWhitespace s = [] \<longleftrightarrow> s = []"
  by (cases s) auto

lemma hd_collapse: "s \<noteq> [] \<Longrightarrow> \<not> isSpace (hd s) \<Longrightarrow> hd (collapseWhitespace s) = hd s"
  by (cases s) auto

lemma last_dropWhile: "dropWhile P xs \<noteq> [] \<Longrightarrow> last (dropWhile P xs) = last xs"
  by (induction xs) (auto split: if_splits)

lemma dropWhile_Nil_last: "xs \<noteq> [] \<Longrightarrow> dropWhile P xs = [] \<Longrightarrow> P (last xs)"
  by (induction xs) (auto split: if_splits)

lemma last_collapse:
  "s \<noteq> [] \<Longrightarrow> \<not> isSpace (last s) \<Longrightarrow> last (collapseWhitespace s) = last s"
proof (induction s rule: collapseWhitespace.induct)
  case 1
  then show ?case by simp
next
  case (2 c cs)
  show ?case
  proof (cases "isSpace c")
    case True
    with "2.prems" have cs: "cs \<noteq> []" by auto
    with "2.prems" have lcs: "\<not> isSpace (last cs)" by simp
    have ne: "dropWhile isSpace cs \<noteq> []"
      using dropWhile_Nil_last [OF cs, of isSpace] lcs by blast
    then have l: "last (dropWhile isSpace cs) = last cs" by (rule last_dropWhile)
    have "last (collapseWhitespace (dropWhile isSpace cs)) = last (dropWhile isSpace cs)"
      using ne lcs l by (intro "2.IH"(1) True) simp_all
    moreover have "collapseWhitespace (dropWhile isSpace cs) \<noteq> []"
      using ne by (simp only: collapse_Nil_iff not_False_eq_True)
    moreover have "collapseWhitespace (c # cs) = CHR '' '' # collapseWhitespace (dropWhile isSpace cs)"
      using True by simp
    ultimately show ?thesis using l cs by (metis last_ConsR)
  next
    case False
    show ?thesis
    proof (cases "cs = []")
      case True
      with False show ?thesis by simp
    next
      case ne: False
      with "2.prems" have lcs: "\<not> isSpace (last cs)" by simp
      have "last (collapseWhitespace cs) = last cs"
        using ne lcs by (intro "2.IH"(2) False) simp_all
      moreover have "collapseWhitespace cs \<noteq> []"
        using ne by (simp only: collapse_Nil_iff not_False_eq_True)
      moreover have "collapseWhitespace (c # cs) = c # collapseWhitespace cs"
        using False by simp
      ultimately show ?thesis using ne by (metis last_ConsR)
    qed
  qed
qed

lemma isTrimmed_collapse: "isTrimmed s \<Longrightarrow> isTrimmed (collapseWhitespace s)"
  by (auto simp: isTrimmed_def collapse_Nil_iff hd_collapse last_collapse)

lemma cleaned_on_clean:
  assumes "cleanAlphabet y" and "isTrimmed y"
  shows "cleaned y = collapseWhitespace y"
proof -
  have "removeParens (removeUrls (removeCaretLines (removeCitations y))) = y"
    using cleanAlphabet_no_special [OF assms(1)]
    by (simp add: removeCitations_id removeCaretLines_id removeUrls_id removeParens_id)
  moreover have "stripSpecial (collapseWhitespace y) = collapseWhitespace y"
    using assms(1) by (intro stripSpecial_id cleanAlphabet_collapse)
  moreover have "trim (collapseWhitespace y) = collapseWhitespace y"
    using assms(2) by (simp add: trim_eq_iff isTrimmed_collapse)
  ultimately show ?thesis by (simp add: cleaned_def)
qed

lemma cleaned_twice: "cleaned (cleaned x) = collapseWhitespace (cleaned x)"
  by (rule cleaned_on_clean) (rule cleanAlphabet_cleaned, rule isTrimmed_cleaned)

lemma hd_collapse_dropWhile:
  "collapseWhitespace (dropWhile isSpace cs) = [] \<or>
   \<not> isSpace (hd (collapseWhitespace (dropWhile isSpace cs)))"
proof (cases "dropWhile isSpace cs = []")
  case True
  show ?thesis unfolding True by simp
next
  case False
  then have "\<not> isSpace (hd (dropWhile isSpace cs))" by (metis hd_dropWhile)
  with False show ?thesis by (simp add: hd_collapse)
qed

lemma adjacentSpaces_Cons:
  "adjacentSpaces (a # s) = (s \<noteq> [] \<and> ((isSpace a \<and> isSpace (hd s)) \<or> adjacentSpaces s))"
  by (cases s) auto

lemma no_adjacentSpaces_collapse: "\<not> adjacentSpaces (collapseWhitespace s)"
proof (induction s rule: collapseWhitespace.induct)
  case 1
  then show ?case by simp
next
  case (2 c cs)
  show ?case
  proof (cases "isSpace c")
    case True
    with "2.IH"(1) hd_collapse_dropWhile [of cs] show ?thesis
      by (auto simp: adjacentSpaces_Cons)
  next
    case False
    with "2.IH"(2) show ?thesis by (auto simp: adjacentSpaces_Cons)
  qed
qed

lemma collapse_id:
  "\<not> adjacentSpaces s \<Longrightarrow> \<forall>c \<in> set s. isSpace c \<longrightarrow> c = CHR '' '' \<Longrightarrow> collapseWhitespace s = s"
proof (induction s rule: collapseWhitespace.induct)
  case 1
  then show ?case by simp
next
  case (2 c cs)
  show ?case
  proof (cases "isSpace c")
    case True
    with "2.prems" have c: "c = CHR '' ''" by simp
    from True "2.prems"(1) have h: "cs = [] \<or> \<not> isSpace (hd cs)"
      by (auto simp: adjacentSpaces_Cons)
    then have d: "dropWhile isSpace cs = cs" by (cases cs) auto
    have "\<not> adjacentSpaces cs" using "2.prems"(1) by (auto simp: adjacentSpaces_Cons)
    with "2.IH"(1) [OF True] d "2.prems"(2) have "collapseWhitespace cs = cs" by simp
    with True c d show ?thesis by simp
  next
    case False
    have "\<not> adjacentSpaces cs" using "2.prems"(1) by (auto simp: adjacentSpaces_Cons)
    with "2.IH"(2) [OF False] "2.prems"(2) have "collapseWhitespace cs = cs" by simp
    with False show ?thesis by simp
  qed
qed

lemma spaces_of_collapse: "\<forall>c \<in> set (collapseWhitespace s). isSpace c \<longrightarrow> c = CHR '' ''"
  using set_collapseWhitespace [of s] by auto

lemma collapse_idem: "collapseWhitespace (collapseWhitespace s) = collapseWhitespace s"
  by (rule collapse_id) (rule no_adjacentSpaces_collapse, rule spaces_of_collapse)

lemma space_not_word: "isSpace c \<Longrightarrow> \<not> isWordChar c"
  by (auto simp: isSpace_def isWordChar_def)

lemma terminators_no_space:
  "\<not> isSpace CHR ''.''" "\<not> isSpace CHR ''!''" "\<not> isSpace CHR ''?''"
  by code_simp+

lemma space_not_terminator: "isSpace c \<Longrightarrow> \<not> isTerminator c"
  using terminators_no_space by (auto simp: isTerminator_def)

lemma cleanAlphabet_spaces: "cleanAlphabet s \<Longrightarrow> \<forall>c \<in> set s. isSpace c \<longrightarrow> c = CHR '' ''"
  unfolding cleanAlphabet_def using space_not_word space_not_terminator by blast

text \<open>
  C8, amended. Cleaning a cleaned text only collapses its runs of spaces; so cleaning
  is idempotent exactly on the texts whose cleaned form has no two spaces in a row, and
  from the second application on nothing changes.
\<close>

theorem cleaned_stable:
  "cleaned (cleaned (cleaned x)) = cleaned (cleaned x) \<and>
   cleaned (cleaned x) = collapseWhitespace (cleaned x) \<and>
   (cleaned (cleaned x) = cleaned x \<longleftrightarrow> \<not> adjacentSpaces (cleaned x))"
proof -
  have "cleaned (cleaned (cleaned x)) = collapseWhitespace (cleaned (cleaned x))"
    by (rule cleaned_twice)
  also have "\<dots> = collapseWhitespace (collapseWhitespace (cleaned x))"
    by (simp only: cleaned_twice)
  also have "\<dots> = cleaned (cleaned x)"
    by (simp only: collapse_idem cleaned_twice)
  finally have 3: "cleaned (cleaned (cleaned x)) = cleaned (cleaned x)" .
  have "collapseWhitespace (cleaned x) = cleaned x" if "\<not> adjacentSpaces (cleaned x)"
    using that cleanAlphabet_spaces [OF cleanAlphabet_cleaned] by (rule collapse_id)
  moreover have "\<not> adjacentSpaces (cleaned x)" if "collapseWhitespace (cleaned x) = cleaned x"
    using no_adjacentSpaces_collapse [of "cleaned x"] that by simp
  ultimately have "cleaned (cleaned x) = cleaned x \<longleftrightarrow> \<not> adjacentSpaces (cleaned x)"
    unfolding cleaned_twice by blast
  with 3 cleaned_twice [of x] show ?thesis by blast
qed

lemma cleaned_examples:
  "cleaned ''a - b'' = ''a  b''" "cleaned ''a  b'' = ''a b''" "cleaned ''a b'' = ''a b''"
  by code_simp+

text \<open>
  C8, as stated, fails: deleting the hyphen of \<open>a - b\<close> (step 6) comes after the
  collapsing of white space (step 5) and leaves two spaces, which a second run
  collapses.
\<close>

theorem cleaned_not_idempotent:
  "cleaned ''a - b'' = ''a  b'' \<and> cleaned (cleaned ''a - b'') = ''a b'' \<and>
   cleaned (cleaned ''a - b'') \<noteq> cleaned ''a - b''"
  by (simp add: cleaned_examples)

theorem cleaned_stable_witness:
  "cleaned (cleaned (cleaned ''a - b'')) = ''a b'' \<and>
   adjacentSpaces (cleaned ''a - b'') \<and>
   cleaned (cleaned ''a b'') = cleaned ''a b''"
proof -
  have 1: "adjacentSpaces (cleaned ''a - b'')"
    unfolding cleaned_examples by code_simp
  have 2: "\<not> adjacentSpaces (cleaned ''a b'')"
    unfolding cleaned_examples by code_simp
  from cleaned_stable [of "''a - b''"]
  have "cleaned (cleaned (cleaned ''a - b'')) = cleaned (cleaned ''a - b'')" by blast
  then have 3: "cleaned (cleaned (cleaned ''a - b'')) = ''a b''"
    by (simp only: cleaned_examples)
  from cleaned_stable [of "''a b''"] 2
  have "cleaned (cleaned ''a b'') = cleaned ''a b''" by blast
  with 1 3 show ?thesis by blast
qed

section \<open>Sentences have words\<close>

lemma matchWords_Nil_iff: "matchWords t = [] \<longleftrightarrow> (\<forall>c \<in> set t. \<not> isWordChar c)"
  by (induction t rule: matchWords.induct) auto

lemma isWordChar_lowerChar: "isWordChar c \<Longrightarrow> isWordChar (lowerChar c)"
  by (auto simp: isWordChar_def lowerChar_def)

lemma wordsOf_Nil_iff: "wordsOf s = [] \<Longrightarrow> (\<forall>c \<in> set s. \<not> isWordChar c)"
  using isWordChar_lowerChar by (auto simp: wordsOf_def matchWords_Nil_iff toLowerCase_def)

lemma dropWhile_none: "\<forall>c \<in> set r. \<not> P c \<Longrightarrow> dropWhile P r = r"
  by (cases r) auto

lemma trim_spaces_then_rest:
  assumes "\<forall>c \<in> set body. isSpace c" and "\<forall>c \<in> set rest. \<not> isSpace c"
  shows "trim (body @ rest) = rest"
proof -
  have "dropWhile isSpace (body @ rest) = dropWhile isSpace rest"
    using assms(1) by (intro dropWhile_append2) simp
  also have "\<dots> = rest" using assms(2) by (rule dropWhile_none)
  finally have 1: "dropWhile isSpace (body @ rest) = rest" .
  have 2: "dropWhile isSpace (rev rest) = rev rest"
    using assms(2) by (intro dropWhile_none) simp
  show ?thesis by (simp add: trim_def 1 2)
qed

lemma splitWhitespace_no_space: "\<forall>c \<in> set r. \<not> isSpace c \<Longrightarrow> splitWhitespace r = [r]"
  by (induction r) auto

lemma quote_not_space: "isQuote c \<Longrightarrow> \<not> isSpace c"
  by (auto simp: isQuote_def isSpace_Char)

lemma matchSentences_shape:
  "z \<in> set (matchSentences t) \<Longrightarrow>
     set z \<subseteq> set t \<and>
     (\<exists>body rest. z = body @ rest \<and> (\<forall>c \<in> set body. \<not> isTerminator c) \<and>
        (\<forall>c \<in> set rest. \<not> isSpace c))"
proof (induction t rule: matchSentences.induct)
  case 1
  then show ?case by simp
next
  case (2 c cs)
  show ?case
  proof (cases "isTerminator c")
    case True
    have "matchSentences (c # cs) = matchSentences cs"
      by (subst matchSentences.simps) (simp only: True if_True)
    with "2.prems" have "z \<in> set (matchSentences cs)" by (simp only:)
    from "2.IH"(1) [OF True this]
    have "set z \<subseteq> set cs"
      and ex: "\<exists>body rest. z = body @ rest \<and> (\<forall>c \<in> set body. \<not> isTerminator c) \<and>
          (\<forall>c \<in> set rest. \<not> isSpace c)" by blast+
    then have "set z \<subseteq> set (c # cs)" by auto
    with ex show ?thesis by blast
  next
    case False
    define body where "body = c # takeWhile (\<lambda>x. \<not> isTerminator x) cs"
    define r1 where "r1 = dropWhile (\<lambda>x. \<not> isTerminator x) cs"
    define terms where "terms = takeWhile isTerminator r1"
    define r2 where "r2 = dropWhile isTerminator r1"
    define quote where "quote = (if terms \<noteq> [] \<and> r2 \<noteq> [] \<and> isQuote (hd r2) then [hd r2] else [])"
    have ms: "matchSentences (c # cs) = (body @ terms @ quote) # matchSentences (drop (length quote) r2)"
      unfolding body_def r1_def terms_def r2_def quote_def
      by (subst matchSentences.simps) (simp only: False if_False Let_def)
    have sub_r1: "set r1 \<subseteq> set cs" unfolding r1_def by (auto dest: set_dropWhileD)
    have sub_r2: "set r2 \<subseteq> set cs" unfolding r2_def using sub_r1 by (auto dest: set_dropWhileD)
    have sub_terms: "set terms \<subseteq> set cs" unfolding terms_def using sub_r1 by (auto dest: set_takeWhileD)
    have sub_quote: "set quote \<subseteq> set cs" unfolding quote_def using sub_r2 by auto
    have sub_body: "set body \<subseteq> set (c # cs)" unfolding body_def by (auto dest: set_takeWhileD)
    show ?thesis
    proof (cases "z = body @ terms @ quote")
      case True
      have nb: "\<forall>x \<in> set body. \<not> isTerminator x"
        unfolding body_def using False by (auto dest: set_takeWhileD)
      have nt: "\<forall>x \<in> set terms. \<not> isSpace x"
        unfolding terms_def using space_not_terminator by (auto dest: set_takeWhileD)
      have nq: "\<forall>x \<in> set quote. \<not> isSpace x"
        unfolding quote_def using quote_not_space by auto
      have nr: "\<forall>x \<in> set (terms @ quote). \<not> isSpace x"
        using nt nq by auto
      have sz: "set z \<subseteq> set (c # cs)"
        using True sub_body sub_terms sub_quote by auto
      from True nb nr sz show ?thesis by blast
    next
      case ne: False
      from "2.prems" have "z \<in> set ((body @ terms @ quote) # matchSentences (drop (length quote) r2))"
        unfolding ms .
      with ne have "z \<in> set (matchSentences (drop (length quote) r2))"
        by (simp only: set_simps insert_iff) blast
      from "2.IH"(2) [OF False body_def r1_def terms_def r2_def quote_def this]
      have "set z \<subseteq> set (drop (length quote) r2)"
        and ex: "\<exists>body rest. z = body @ rest \<and> (\<forall>c \<in> set body. \<not> isTerminator c) \<and>
          (\<forall>c \<in> set rest. \<not> isSpace c)" by blast+
      then have "set z \<subseteq> set (c # cs)"
        using sub_r2 set_drop_subset [of "length quote" r2] by auto
      with ex show ?thesis by blast
    qed
  qed
qed

lemma cleanAlphabet_subset: "cleanAlphabet t \<Longrightarrow> set z \<subseteq> set t \<Longrightarrow> cleanAlphabet z"
  by (auto simp: cleanAlphabet_def)

lemma set_trim_nonspace: "c \<in> set z \<Longrightarrow> \<not> isSpace c \<Longrightarrow> c \<in> set (trim z)"
proof -
  assume c: "c \<in> set z" and n: "\<not> isSpace c"
  have a: "c \<in> set (dropWhile P xs)" if "c \<in> set xs" "\<not> P c" for P xs
    using that by (induction xs) auto
  show ?thesis unfolding trim_def using a [of "rev (dropWhile isSpace z)" isSpace] a [of z isSpace] c n
    by simp
qed

lemma valid_sentence_has_word:
  assumes "s \<in> set (validSentences text)"
  shows "wordsOf s \<noteq> []"
proof
  assume e: "wordsOf s = []"
  from assms obtain z where z: "z \<in> set (matchSentences (cleaned text))" and s: "s = trim z"
    and keep: "keepSentence s"
    by (auto simp: validSentences_def sentences_def)
  from matchSentences_shape [OF z] obtain body rest where
    sub: "set z \<subseteq> set (cleaned text)" and zb: "z = body @ rest"
    and b: "\<forall>c \<in> set body. \<not> isTerminator c" and r: "\<forall>c \<in> set rest. \<not> isSpace c"
    by blast
  have alpha: "cleanAlphabet z"
    using cleanAlphabet_cleaned sub by (rule cleanAlphabet_subset)
  have now: "\<forall>c \<in> set z. \<not> isWordChar c"
  proof
    fix c assume c: "c \<in> set z"
    show "\<not> isWordChar c"
    proof
      assume w: "isWordChar c"
      then have "\<not> isSpace c" using space_not_word by blast
      with c have "c \<in> set s" unfolding s by (rule set_trim_nonspace)
      with wordsOf_Nil_iff [OF e] w show False by blast
    qed
  qed
  have "\<forall>c \<in> set body. isSpace c"
  proof
    fix c assume c: "c \<in> set body"
    then have "c \<in> set z" using zb by simp
    with alpha now b c have "c = CHR '' ''" unfolding cleanAlphabet_def by blast
    then show "isSpace c" using isSpace_space by simp
  qed
  then have "s = rest" unfolding s zb using r by (rule trim_spaces_then_rest)
  with r have "splitWhitespace s = [s]" by (simp add: splitWhitespace_no_space)
  with keepSentence_length [OF keep] show False by simp
qed

section \<open>The scores against the specification\<close>

lemma positionScore_spec:
  "0 < totalCount \<Longrightarrow> positionScore index totalCount = specPosition index totalCount"
  by (simp add: positionScore_def specPosition_def field_simps)

lemma frequency_spec:
  "real (sum_list (map (count_list (countedWords vs)) (filter (\<lambda>word. \<not> isStopWord word) ws)))
     / orOne (length (filter (\<lambda>word. \<not> isStopWord word) ws)) = specFrequency vs ws"
proof -
  have "count_list (countedWords vs) = specWordFreq vs"
    by (simp add: fun_eq_iff specWordFreq_def)
  then show ?thesis
    by (simp add: specFrequency_def Let_def orOne_def)
qed

lemma phrase_spec:
  "ws \<noteq> [] \<Longrightarrow>
   real (sum_list (map (\<lambda>p. count_list (countedPhrases vs) (phraseKey p)) (adjacentPhrases ws)))
     / orOne (length ws) = specPhrase vs ws"
  by (simp add: specPhrase_def specPhraseFreq_def orOne_def)

lemma diversity_spec: "real (uniqueWords ws) / real (length ws) = specDiversity ws"
  by (simp add: uniqueWords_def specDiversity_def length_remdups_card_conv)

lemma length_spec: "lengthScore ws = specLength ws"
  by (simp add: lengthScore_def specLength_def)

lemma finalScore_spec:
  assumes "\<forall>w \<in> set (filter (\<lambda>word. \<not> isStopWord word) (wordsOf s)). w \<notin> set objectPrototypeKeys"
    and "wordsOf s \<noteq> []" and "vs \<noteq> []"
  shows "finalScore (wordFreq vs) (phraseFreq vs) s index (length vs) = Num (specScore vs s index)"
proof -
  have "0 < length vs" using assms(3) by simp
  then have p: "positionScore index (length vs) = specPosition index (length vs)"
    by (rule positionScore_spec)
  show ?thesis
    unfolding finalScore_counts [OF assms(1,2)] frequency_spec phrase_spec [OF assms(2)]
      diversity_spec length_spec p specScore_def
    by simp
qed

lemma finalScore_NaN_iff:
  assumes "wordsOf s \<noteq> []" and "vs \<noteq> []"
  shows "finalScore (wordFreq vs) (phraseFreq vs) s index (length vs) = NaN \<longleftrightarrow>
         (\<exists>w \<in> set (wordsOf s). \<not> isStopWord w \<and> w \<in> set objectPrototypeKeys)"
proof
  assume n: "finalScore (wordFreq vs) (phraseFreq vs) s index (length vs) = NaN"
  show "\<exists>w \<in> set (wordsOf s). \<not> isStopWord w \<and> w \<in> set objectPrototypeKeys"
  proof (rule ccontr)
    assume "\<not> ?thesis"
    then have "\<forall>w \<in> set (filter (\<lambda>word. \<not> isStopWord word) (wordsOf s)). w \<notin> set objectPrototypeKeys"
      by auto
    from finalScore_spec [OF this assms] n show False by simp
  qed
next
  assume "\<exists>w \<in> set (wordsOf s). \<not> isStopWord w \<and> w \<in> set objectPrototypeKeys"
  then obtain w where "w \<in> set (wordsOf s)" "\<not> isStopWord w" "w \<in> set objectPrototypeKeys"
    by blast
  then show "finalScore (wordFreq vs) (phraseFreq vs) s index (length vs) = NaN"
    by (rule finalScore_member)
qed

lemma score_nth:
  "i < length vs \<Longrightarrow>
   score (sentenceScores vs ! i) = finalScore (wordFreq vs) (phraseFreq vs) (vs ! i) i (length vs)"
  by (simp add: sentenceScores_def nth_enumerate_eq)

lemma valid_sentence_score:
  assumes "i < length (validSentences text)"
    and "\<forall>w \<in> set (wordsOf (validSentences text ! i)). isStopWord w \<or> w \<notin> set objectPrototypeKeys"
  shows "score (sentenceScores (validSentences text) ! i) =
         Num (specScore (validSentences text) (validSentences text ! i) i)"
proof -
  have m: "validSentences text ! i \<in> set (validSentences text)" using assms(1) by simp
  then have w: "wordsOf (validSentences text ! i) \<noteq> []" by (rule valid_sentence_has_word)
  have ne: "validSentences text \<noteq> []" using assms(1) by auto
  have "\<forall>w \<in> set (filter (\<lambda>word. \<not> isStopWord word) (wordsOf (validSentences text ! i))).
          w \<notin> set objectPrototypeKeys"
    using assms(2) by auto
  from finalScore_spec [OF this w ne] show ?thesis
    by (simp add: score_nth [OF assms(1)])
qed

lemma stop_words_count_nothing:
  "\<forall>w \<in> set ws. isStopWord w \<Longrightarrow> countWords tbl ws = tbl"
  unfolding countWords_def by (induction ws arbitrary: tbl) simp_all

lemma validSentences_constructorText:
  "validSentences constructorText = [constructorSentence, followsSentence]"
  unfolding constructorText_def constructorSentence_def followsSentence_def by code_simp

lemma constructor_words:
  "wordsOf constructorSentence =
     [''the'', ''constructor'', ''builds'', ''the'', ''object'', ''instance'', ''correctly'']"
  unfolding constructorSentence_def by code_simp

lemma constructor_facts:
  "\<not> isStopWord ''constructor''" "''constructor'' \<in> set objectPrototypeKeys"
  "count_list (countedWords [constructorSentence, followsSentence]) ''constructor'' = 1"
  by code_simp+

text \<open>
  C6. The composite score is the weighted sum of the specification for every sentence
  none of whose words is a member name of \<^verbatim>\<open>Object.prototype\<close>
  (\<open>valid_sentence_score\<close>). For a sentence with the word \<^verbatim>\<open>constructor\<close> the code
  computes NaN instead: the table is an ordinary object, reading the key finds the
  inherited function, and \<^verbatim>\<open>+\<close> concatenates strings from there on.
\<close>

theorem constructor_score_not_weighted_sum:
  "finalScore (wordFreq (validSentences constructorText)) (phraseFreq (validSentences constructorText))
     constructorSentence 0 (length (validSentences constructorText)) = NaN \<and>
   finalScore (wordFreq (validSentences constructorText)) (phraseFreq (validSentences constructorText))
     constructorSentence 0 (length (validSentences constructorText)) \<noteq>
   Num (specScore (validSentences constructorText) constructorSentence 0)"
proof -
  have "''constructor'' \<in> set (wordsOf constructorSentence)"
    by (simp add: constructor_words)
  from finalScore_member [OF this constructor_facts(1,2)] show ?thesis by simp
qed

text \<open>
  C7. Both tables are built from the valid sentences alone, and under every key that is
  no member name of \<^verbatim>\<open>Object.prototype\<close> they hold exactly the counts of the
  specification (\<open>holdsCounts_wordFreq\<close>, \<open>holdsCounts_phraseFreq\<close>); a sentence
  of stop words leaves the word table as it is (\<open>stop_words_count_nothing\<close>). Under
  the key \<^verbatim>\<open>constructor\<close> the word table holds no count but a string, although the
  word occurs once among the counted words.
\<close>

theorem constructor_entry_no_count:
  "getProp (wordFreq (validSentences constructorText)) ''constructor'' = NonNumeric \<and>
   specWordFreq (validSentences constructorText) ''constructor'' = 1"
  using getProp_wordFreq_member [OF constructor_facts(2)]
  by (simp add: specWordFreq_def validSentences_constructorText constructor_facts(3))

text \<open>
  C10. Every valid sentence has a word (\<open>valid_sentence_has_word\<close>), so no division
  by zero occurs; the score is NaN exactly for the sentences with a word that is a
  member name of \<^verbatim>\<open>Object.prototype\<close> and no stop word (\<open>finalScore_NaN_iff\<close>), and
  such a word is \<^verbatim>\<open>constructor\<close> or \<^verbatim>\<open>__proto__\<close> (\<open>word_member_names\<close>). The
  sentence below is valid, has 7 words, and its score is NaN.
\<close>

theorem constructor_sentence_scored_NaN:
  "constructorSentence \<in> set (validSentences constructorText) \<and>
   length (wordsOf constructorSentence) = 7 \<and>
   map score (sentenceScores (validSentences constructorText)) ! 0 = NaN"
proof -
  have w: "''constructor'' \<in> set (wordsOf constructorSentence)"
    by (simp add: constructor_words)
  have "score (sentenceScores (validSentences constructorText) ! 0) = NaN"
    using finalScore_member [OF w constructor_facts(1,2)]
    by (simp add: score_nth validSentences_constructorText)
  then show ?thesis
    by (simp add: validSentences_constructorText constructor_words)
qed

lemma lowerChar_not_upper: "\<not> isUpperCase (lowerChar c)"
  by (auto simp: lowerChar_def isUpperCase_def)

lemma matchWords_chars: "w \<in> set (matchWords t) \<Longrightarrow> set w \<subseteq> set t"
proof (induction t rule: matchWords.induct)
  case 1
  then show ?case by simp
next
  case (2 c cs)
  show ?case
  proof (cases "isWordChar c")
    case True
    then have "w = c # takeWhile isWordChar cs \<or> w \<in> set (matchWords (dropWhile isWordChar cs))"
      using "2.prems" by simp
    then show ?thesis
    proof
      assume "w = c # takeWhile isWordChar cs"
      then show ?thesis by (auto dest: set_takeWhileD)
    next
      assume "w \<in> set (matchWords (dropWhile isWordChar cs))"
      from "2.IH"(1) [OF True this] have "set w \<subseteq> set (dropWhile isWordChar cs)" .
      then show ?thesis by (auto dest: set_dropWhileD)
    qed
  next
    case False
    then have "w \<in> set (matchWords cs)" using "2.prems" by simp
    from "2.IH"(2) [OF False this] show ?thesis by auto
  qed
qed

lemma wordsOf_lower: "w \<in> set (wordsOf s) \<Longrightarrow> \<forall>c \<in> set w. \<not> isUpperCase c"
  using matchWords_chars [of w "toLowerCase s"] lowerChar_not_upper
  by (auto simp: wordsOf_def toLowerCase_def)

lemma lower_member_names:
  "filter (\<lambda>k. \<forall>c \<in> set k. \<not> isUpperCase c) objectPrototypeKeys = [''constructor'', ''__proto__'']"
  by code_simp

lemma word_member_names:
  assumes "w \<in> set (wordsOf s)" and "w \<in> set objectPrototypeKeys"
  shows "w = ''constructor'' \<or> w = ''__proto__''"
proof -
  have "w \<in> set (filter (\<lambda>k. \<forall>c \<in> set k. \<not> isUpperCase c) objectPrototypeKeys)"
    using wordsOf_lower [OF assms(1)] assms(2) by (simp only: set_filter mem_Collect_eq)
  then have "w \<in> set [''constructor'', ''__proto__'']"
    by (simp only: lower_member_names)
  then show ?thesis by (simp only: set_simps insert_iff empty_iff) blast
qed

end
